theory Spec2Isabelle
  imports Complex_Main
begin

section \<open>Python strings and the runtime tables the program relies on\<close>

text \<open>
  This theory models \<open>brightness.py\<close>: the readers of the two backlight files, the
  \<open>show\<close> command, the \<open>set\<close> command with its value expression, and \<open>main\<close>. The
  builtins the program calls (\<open>re.fullmatch\<close>, \<open>int\<close>, \<open>str\<close>, \<open>/\<close>, \<open>round\<close>,
  \<open>format\<close>) are modelled as CPython 3 defines them.

  A Python \<open>str\<close> is a sequence of Unicode code points, so a character is modelled by
  its code point and a string by a list of code points. \<open>ustr\<close> embeds an ASCII literal.
\<close>

type_synonym pychar = nat
type_synonym pystr = "pychar list"

definition ustr :: "string \<Rightarrow> pystr" where
  "ustr s = map of_char s"

text \<open>
  The characters with the Unicode property \<open>Decimal\<close> (category Nd) come in runs of ten
  consecutive code points, digit zero first. \<open>decimal_runs\<close> lists the first code point
  of every run of Unicode 14.0.0. It is the table behind both \<open>\d\<close> of the \<open>re\<close>
  module on \<open>str\<close> patterns and the digits accepted by \<open>int()\<close>.
\<close>

definition decimal_runs :: "nat list" where
  "decimal_runs =
    [48, 1632, 1776, 1984, 2406, 2534, 2662, 2790, 2918, 3046, 3174, 3302, 3430, 3558,
     3664, 3792, 3872, 4160, 4240, 6112, 6160, 6470, 6608, 6784, 6800, 6992, 7088, 7232,
     7248, 42528, 43216, 43264, 43472, 43504, 43600, 44016, 65296, 66720, 68912, 69734,
     69872, 69942, 70096, 70384, 70736, 70864, 71248, 71360, 71472, 71904, 72016, 72784,
     73040, 73120, 92768, 92864, 93008, 120782, 120792, 120802, 120812, 120822, 123200,
     123632, 125264, 130032]"

definition todecimal :: "pychar \<Rightarrow> nat option" where
  "todecimal c =
     (case find (\<lambda>s. s \<le> c \<and> c < s + 10) decimal_runs of
        None \<Rightarrow> None
      | Some s \<Rightarrow> Some (c - s))"

definition is_decimal :: "pychar \<Rightarrow> bool" where
  "is_decimal c = (todecimal c \<noteq> None)"

definition is_ascii_digit :: "pychar \<Rightarrow> bool" where
  "is_ascii_digit c = (48 \<le> c \<and> c \<le> 57)"

text \<open>The code points for which \<open>str.isspace\<close> holds (Unicode 14.0.0).\<close>

definition unicode_spaces :: "nat list" where
  "unicode_spaces =
    [9, 10, 11, 12, 13, 28, 29, 30, 31, 32, 133, 160, 5760, 8192, 8193, 8194, 8195, 8196,
     8197, 8198, 8199, 8200, 8201, 8202, 8232, 8233, 8239, 8287, 12288]"

definition is_unicode_space :: "pychar \<Rightarrow> bool" where
  "is_unicode_space c = (c \<in> set unicode_spaces)"

text \<open>The blanks that the integer parser itself skips: tab to carriage return, and space.\<close>

definition is_c_space :: "pychar \<Rightarrow> bool" where
  "is_c_space c = (c = 32 \<or> (9 \<le> c \<and> c \<le> 13))"


section \<open>Errors\<close>

text \<open>
  \<open>raise ValueError()\<close> carries no message. \<open>int()\<close> raises \<open>ValueError\<close> with the
  offending literal, or with the number of digits when they exceed the limit of the
  interpreter; \<open>str()\<close> of an integer with more digits than the limit raises
  \<open>ValueError\<close> too. \<open>OSError\<close> is what \<open>open\<close> raises, \<open>ZeroDivisionError\<close> and
  \<open>OverflowError\<close> come from the true division of integers, \<open>TypeError\<close> from
  arithmetic on \<open>None\<close>.
\<close>

datatype message =
    NoMessage
  | InvalidLiteral pystr
  | ExceedsLimitToInt nat
  | ExceedsLimitToStr

datatype error =
    ValueError message
  | OSError
  | ZeroDivisionError
  | OverflowError
  | TypeError

definition bind_res :: "error + 'a \<Rightarrow> ('a \<Rightarrow> error + 'b) \<Rightarrow> error + 'b" where
  "bind_res r f = (case r of Inl e \<Rightarrow> Inl e | Inr x \<Rightarrow> f x)"


section \<open>The builtin \<open>int\<close> on strings and \<open>str\<close> on integers\<close>

text \<open>
  Integers are Python's unbounded integers, but CPython 3.11 converts at most
  \<open>sys.get_int_max_str_digits()\<close> decimal digits between \<open>str\<close> and \<open>int\<close>, 4300 by
  default, and raises \<open>ValueError\<close> beyond.
\<close>

definition max_str_digits :: nat where
  "max_str_digits = 4300"

text \<open>
  \<open>int(s)\<close> first maps the string to ASCII: a character below 127 stays, another
  Unicode blank becomes a space, another decimal digit becomes its ASCII digit, and
  anything else becomes \<open>?\<close>, which no integer literal contains.
\<close>

definition ascii_of :: "pychar \<Rightarrow> pychar" where
  "ascii_of c =
     (if c < 127 then c
      else if is_unicode_space c then 32
      else (case todecimal c of None \<Rightarrow> 63 | Some d \<Rightarrow> 48 + d))"

text \<open>
  The digits after the first one: single underscores may separate digits, and the scan
  stops at the first character that is neither. A doubled or trailing underscore is an
  error. The scan returns the value, the number of digits and what is left.
\<close>

fun digits_tail :: "int \<Rightarrow> nat \<Rightarrow> pystr \<Rightarrow> (int \<times> nat \<times> pystr) option" where
  "digits_tail acc k [] = Some (acc, k, [])"
| "digits_tail acc k [c] =
     (if is_ascii_digit c then Some (10 * acc + (int c - 48), Suc k, [])
      else if c = 95 then None
      else Some (acc, k, [c]))"
| "digits_tail acc k (c # d # cs) =
     (if is_ascii_digit c then digits_tail (10 * acc + (int c - 48)) (Suc k) (d # cs)
      else if c = 95 then
        (if is_ascii_digit d then digits_tail (10 * acc + (int d - 48)) (Suc k) cs else None)
      else Some (acc, k, c # d # cs))"

text \<open>
  After the blanks and an optional sign the literal must start with a digit. Once the
  digits are scanned their number is checked against the limit, and only then what
  follows them: after the digits only blanks may follow.
\<close>

definition skip_sign :: "pystr \<Rightarrow> pystr" where
  "skip_sign t = (case t of [] \<Rightarrow> [] | c # cs \<Rightarrow> if c = 43 \<or> c = 45 then cs else c # cs)"

definition is_negative :: "pystr \<Rightarrow> bool" where
  "is_negative t = (case t of [] \<Rightarrow> False | c # cs \<Rightarrow> c = 45)"

definition long_digits :: "pystr \<Rightarrow> (int \<times> nat \<times> pystr) option" where
  "long_digits t =
     (case t of
        [] \<Rightarrow> None
      | c # cs \<Rightarrow> if is_ascii_digit c then digits_tail (int c - 48) 1 cs else None)"

datatype scanned = Malformed | TooLong nat | Number int

definition long_from_string :: "pystr \<Rightarrow> scanned" where
  "long_from_string t =
     (case long_digits (skip_sign (dropWhile is_c_space t)) of
        None \<Rightarrow> Malformed
      | Some (v, k, rest) \<Rightarrow>
          if max_str_digits < k then TooLong k
          else if list_all is_c_space rest
          then Number (if is_negative (dropWhile is_c_space t) then - v else v)
          else Malformed)"

definition py_int :: "pystr \<Rightarrow> error + int" where
  "py_int s =
     (case long_from_string (map ascii_of s) of
        Malformed \<Rightarrow> Inl (ValueError (InvalidLiteral s))
      | TooLong k \<Rightarrow> Inl (ValueError (ExceedsLimitToInt k))
      | Number v \<Rightarrow> Inr v)"

text \<open>
  \<open>str(n)\<close>: the decimal digits without leading zeros, after \<open>-\<close> when negative;
  \<open>ValueError\<close> when there are more digits than the limit. \<open>print\<close> and \<open>format\<close>
  convert an integer the same way.
\<close>

function dec :: "nat \<Rightarrow> pystr" where
  "dec n = (if n < 10 then [48 + n] else dec (n div 10) @ [48 + n mod 10])"
  by pat_completeness auto
termination
  by (relation "measure (\<lambda>n. n)") auto

declare dec.simps [simp del]

definition decimal_text :: "int \<Rightarrow> pystr" where
  "decimal_text n = (if n < 0 then 45 # dec (nat (- n)) else dec (nat n))"

definition py_str :: "int \<Rightarrow> error + pystr" where
  "py_str n =
     (if max_str_digits < length (dec (nat \<bar>n\<bar>)) then Inl (ValueError ExceedsLimitToStr)
      else Inr (decimal_text n))"


section \<open>The value expression\<close>

text \<open>
  \<open>re.fullmatch('([+-])?(\d+)(%)?', value)\<close> followed by \<open>matches.groups()\<close>: an
  optional sign, the longest run of decimal digits (which must not be empty), an
  optional percent sign, and then the end of the string. The three character classes
  are disjoint, so the greedy match is the only one. The result is \<open>None\<close> when the
  pattern does not match the whole string.
\<close>

definition opt_sign :: "pystr \<Rightarrow> pychar option" where
  "opt_sign v = (case v of [] \<Rightarrow> None | c # cs \<Rightarrow> if c = 43 \<or> c = 45 then Some c else None)"

definition after_sign :: "pystr \<Rightarrow> pystr" where
  "after_sign v = (case opt_sign v of None \<Rightarrow> v | Some _ \<Rightarrow> tl v)"

fun groups_of ::
  "pychar option \<Rightarrow> pystr \<Rightarrow> pystr \<Rightarrow> (pychar option \<times> pystr \<times> pychar option) option" where
  "groups_of g0 [] t = None"
| "groups_of g0 (d # ds) [] = Some (g0, d # ds, None)"
| "groups_of g0 (d # ds) [c] = (if c = 37 then Some (g0, d # ds, Some 37) else None)"
| "groups_of g0 (d # ds) (c # c' # cs) = None"

definition fullmatch_groups :: "pystr \<Rightarrow> (pychar option \<times> pystr \<times> pychar option) option" where
  "fullmatch_groups v =
     groups_of (opt_sign v)
       (takeWhile is_decimal (after_sign v)) (dropWhile is_decimal (after_sign v))"

text \<open>
  The four options of \<open>set_current_brightness\<close> as a datatype (the directive of the
  specification), and the sign taken the way the code tests it: \<open>'+'\<close>, else minus.
\<close>

datatype sign = Plus | Minus

datatype directive =
    Absolute int
  | AbsolutePercent int
  | Relative sign int
  | RelativePercent sign int

definition sign_of :: "pychar \<Rightarrow> sign" where
  "sign_of c = (if c = 43 then Plus else Minus)"

text \<open>
  Lines 69 to 74 and the conditions of the four branches: which option a value selects,
  with \<open>int(groups[1])\<close> as its number.
\<close>

definition parse :: "pystr \<Rightarrow> error + directive" where
  "parse v =
     (case fullmatch_groups v of
        None \<Rightarrow> Inl (ValueError NoMessage)
      | Some (g0, g1, g2) \<Rightarrow>
          bind_res (py_int g1) (\<lambda>n.
            Inr (case (g0, g2) of
                   (None, None) \<Rightarrow> Absolute n
                 | (None, Some _) \<Rightarrow> AbsolutePercent n
                 | (Some s, None) \<Rightarrow> Relative (sign_of s) n
                 | (Some s, Some _) \<Rightarrow> RelativePercent (sign_of s) n)))"


section \<open>True division of integers, \<open>round\<close> and the \<open>.2f\<close> format\<close>

text \<open>
  \<open>a / b\<close> on integers is the IEEE 754 double nearest to the exact quotient, ties to
  the even mantissa; it raises \<open>ZeroDivisionError\<close> for a zero divisor and
  \<open>OverflowError\<close> when that double would not be finite. A double is kept exactly, as
  sign, mantissa and binary exponent: its value is \<open>\<plusminus> mantissa * 2 ^ exponent\<close>.
  All arithmetic is on integers: \<open>div_rhe n d\<close> is the integer nearest to \<open>n / d\<close>,
  ties to even, and \<open>scaled_rhe n d s\<close> the one nearest to \<open>n / (d * 2 ^ s)\<close>.
\<close>

datatype pyfloat = PyFloat (negative: bool) (mantissa: nat) (exponent: int)

definition div_rhe :: "nat \<Rightarrow> nat \<Rightarrow> nat" where
  "div_rhe n d =
     (if 2 * (n mod d) < d then n div d
      else if d < 2 * (n mod d) then n div d + 1
      else if even (n div d) then n div d
      else n div d + 1)"

definition scaled_rhe :: "nat \<Rightarrow> nat \<Rightarrow> int \<Rightarrow> nat" where
  "scaled_rhe n d s =
     (if 0 \<le> s then div_rhe n (d * 2 ^ nat s) else div_rhe (n * 2 ^ nat (- s)) d)"

function bit_length :: "nat \<Rightarrow> nat" where
  "bit_length n = (if n = 0 then 0 else Suc (bit_length (n div 2)))"
  by pat_completeness auto
termination
  by (relation "measure (\<lambda>n. n)") auto

declare bit_length.simps [simp del]

text \<open>\<open>ge_pow2 n d k\<close> tests \<open>2 ^ k \<le> n / d\<close>; \<open>quot_exponent\<close> is the binary exponent of
  the quotient, the \<open>e\<close> with \<open>2 ^ e \<le> n / d < 2 ^ (e + 1)\<close>.\<close>

definition ge_pow2 :: "nat \<Rightarrow> nat \<Rightarrow> int \<Rightarrow> bool" where
  "ge_pow2 n d k = (if 0 \<le> k then d * 2 ^ nat k \<le> n else d \<le> n * 2 ^ nat (- k))"

definition quot_exponent :: "nat \<Rightarrow> nat \<Rightarrow> int" where
  "quot_exponent n d =
     (if ge_pow2 n d (int (bit_length n) - int (bit_length d))
      then int (bit_length n) - int (bit_length d)
      else int (bit_length n) - int (bit_length d) - 1)"

text \<open>The exponent of the last mantissa bit: 52 below the quotient's exponent, and
  never below that of the subnormal doubles.\<close>

definition ulp_exponent :: "nat \<Rightarrow> nat \<Rightarrow> int" where
  "ulp_exponent n d = max (quot_exponent n d) (- 1022) - 52"

definition round_double :: "nat \<Rightarrow> nat \<Rightarrow> (nat \<times> int) option" where
  "round_double n d =
     (if 0 \<le> ulp_exponent n d \<and>
         2 ^ 1024 \<le> scaled_rhe n d (ulp_exponent n d) * 2 ^ nat (ulp_exponent n d)
      then None
      else Some (scaled_rhe n d (ulp_exponent n d), ulp_exponent n d))"

definition int_true_divide :: "int \<Rightarrow> int \<Rightarrow> error + pyfloat" where
  "int_true_divide a b =
     (if b = 0 then Inl ZeroDivisionError
      else if a = 0 then Inr (PyFloat (b < 0) 0 0)
      else (case round_double (nat \<bar>a\<bar>) (nat \<bar>b\<bar>) of
              None \<Rightarrow> Inl OverflowError
            | Some (m, x) \<Rightarrow> Inr (PyFloat ((a < 0) \<noteq> (b < 0)) m x)))"

text \<open>\<open>round(x)\<close> of a float without a second argument: the nearest integer, ties to
  even, of the exact value of the double.\<close>

definition py_round :: "pyfloat \<Rightarrow> int" where
  "py_round f =
     (if negative f then - int (scaled_rhe (mantissa f) 1 (- exponent f))
      else int (scaled_rhe (mantissa f) 1 (- exponent f)))"

text \<open>\<open>round(a / b)\<close> on integers \<open>a\<close> and \<open>b\<close>.\<close>

definition round_quot :: "int \<Rightarrow> int \<Rightarrow> error + int" where
  "round_quot a b = bind_res (int_true_divide a b) (\<lambda>f. Inr (py_round f))"

text \<open>\<open>'{:.2f}'.format(x)\<close>: the exact value of the double rounded to hundredths, ties
  to even, printed with its sign bit, its integer part and two decimals.\<close>

definition hundredths :: "pyfloat \<Rightarrow> nat" where
  "hundredths f = scaled_rhe (mantissa f * 100) 1 (- exponent f)"

definition format_2f :: "pyfloat \<Rightarrow> pystr" where
  "format_2f f =
     (if negative f then [45] else []) @ dec (hundredths f div 100) @
     [46, 48 + hundredths f mod 100 div 10, 48 + hundredths f mod 10]"


section \<open>The backlight device and the standard output\<close>

text \<open>
  The state the program acts on: the text of the two files under
  \<open>/sys/class/backlight/intel_backlight\<close>, whether \<open>open\<close> succeeds on them, what has
  been printed, and the files opened so far, in order. A failing \<open>open\<close> is recorded
  too. The files are plain text files: what the driver does with a written value is
  outside the program.
\<close>

datatype device_file = Brightness | MaxBrightness

datatype event = OpenRead device_file | OpenWrite device_file

record world =
  brightness :: pystr
  max_brightness :: pystr
  can_read_brightness :: bool
  can_read_max_brightness :: bool
  can_write_brightness :: bool
  stdout :: pystr
  opened :: "event list"

type_synonym 'a io = "world \<Rightarrow> (error + 'a) \<times> world"

definition return_io :: "'a \<Rightarrow> 'a io" where
  "return_io x w = (Inr x, w)"

definition lift_res :: "error + 'a \<Rightarrow> 'a io" where
  "lift_res r w = (r, w)"

definition bind_io :: "'a io \<Rightarrow> ('a \<Rightarrow> 'b io) \<Rightarrow> 'b io" where
  "bind_io m f w = (case m w of (Inl e, w') \<Rightarrow> (Inl e, w') | (Inr x, w') \<Rightarrow> f x w')"

definition record_open :: "event \<Rightarrow> world \<Rightarrow> world" where
  "record_open ev w = w\<lparr>opened := opened w @ [ev]\<rparr>"

definition read_brightness :: "int io" where
  "read_brightness w =
     (if can_read_brightness w
      then (py_int (brightness w), record_open (OpenRead Brightness) w)
      else (Inl OSError, record_open (OpenRead Brightness) w))"

definition read_max_brightness :: "int io" where
  "read_max_brightness w =
     (if can_read_max_brightness w
      then (py_int (max_brightness w), record_open (OpenRead MaxBrightness) w)
      else (Inl OSError, record_open (OpenRead MaxBrightness) w))"

text \<open>Lines 111 and 112: \<open>open\<close> with mode \<open>'w'\<close> truncates, \<open>print\<close> writes \<open>str\<close> of the
  value and a newline. When \<open>str\<close> raises, the file has been truncated already and
  stays empty.\<close>

definition write_brightness :: "int \<Rightarrow> unit io" where
  "write_brightness n w =
     (if can_write_brightness w
      then (case py_str n of
              Inl e \<Rightarrow> (Inl e, (record_open (OpenWrite Brightness) w)\<lparr>brightness := []\<rparr>)
            | Inr t \<Rightarrow>
                (Inr (), (record_open (OpenWrite Brightness) w)\<lparr>brightness := t @ [10]\<rparr>))
      else (Inl OSError, record_open (OpenWrite Brightness) w))"


section \<open>The commands\<close>

text \<open>Arithmetic on a variable that still holds \<open>None\<close> raises \<open>TypeError\<close>.\<close>

definition known :: "int option \<Rightarrow> error + int" where
  "known x = (case x of None \<Rightarrow> Inl TypeError | Some n \<Rightarrow> Inr n)"

text \<open>Lines 91 to 109: the new brightness from the three groups and the values read.\<close>

definition new_brightness ::
  "pychar option \<Rightarrow> pystr \<Rightarrow> pychar option \<Rightarrow> int option \<Rightarrow> int option \<Rightarrow> error + int" where
  "new_brightness g0 g1 g2 cur_brightness max_brightness' =
     (if g0 = None \<and> g2 = None then py_int g1
      else if g0 = None \<and> g2 \<noteq> None then
        bind_res (py_int g1) (\<lambda>n. bind_res (known max_brightness') (\<lambda>m. round_quot (n * m) 100))
      else if g0 \<noteq> None \<and> g2 = None then
        (if g0 = Some 43
         then bind_res (known cur_brightness) (\<lambda>c. bind_res (py_int g1) (\<lambda>n. Inr (c + n)))
         else bind_res (known cur_brightness) (\<lambda>c. bind_res (py_int g1) (\<lambda>n. Inr (c - n))))
      else
        bind_res (py_int g1) (\<lambda>n. bind_res (known max_brightness') (\<lambda>m.
          bind_res (round_quot (n * m) 100) (\<lambda>delta.
            if g0 = Some 43
            then bind_res (known cur_brightness) (\<lambda>c. Inr (c + delta))
            else bind_res (known cur_brightness) (\<lambda>c. Inr (c - delta))))))"

definition set_current_brightness :: "pystr \<Rightarrow> unit io" where
  "set_current_brightness v w =
     (case fullmatch_groups v of
        None \<Rightarrow> (Inl (ValueError NoMessage), w)
      | Some (g0, g1, g2) \<Rightarrow>
          bind_io
            (if g0 \<noteq> None then bind_io read_brightness (\<lambda>c. return_io (Some c))
             else return_io None)
            (\<lambda>cur_brightness.
              bind_io
                (if g2 \<noteq> None then bind_io read_max_brightness (\<lambda>m. return_io (Some m))
                 else return_io None)
                (\<lambda>max_brightness'.
                  bind_io (lift_res (new_brightness g0 g1 g2 cur_brightness max_brightness'))
                    write_brightness)) w)"

text \<open>
  The calculator of the specification, read off the same lines option by option: which
  files an option reads, in the order of lines 84 to 89, and what it returns.
\<close>

fun compute :: "directive \<Rightarrow> int io" where
  "compute (Absolute n) = return_io n"
| "compute (AbsolutePercent p) =
     bind_io read_max_brightness (\<lambda>m. lift_res (round_quot (p * m) 100))"
| "compute (Relative s n) =
     bind_io read_brightness (\<lambda>c. return_io (case s of Plus \<Rightarrow> c + n | Minus \<Rightarrow> c - n))"
| "compute (RelativePercent s p) =
     bind_io read_brightness (\<lambda>c.
       bind_io read_max_brightness (\<lambda>m.
         bind_io (lift_res (round_quot (p * m) 100)) (\<lambda>delta.
           return_io (case s of Plus \<Rightarrow> c + delta | Minus \<Rightarrow> c - delta))))"

text \<open>Lines 40 to 55.\<close>

definition output_line :: "int \<Rightarrow> int \<Rightarrow> pyfloat \<Rightarrow> error + pystr" where
  "output_line cur mx percentage =
     bind_res (py_str cur) (\<lambda>c. bind_res (py_str mx) (\<lambda>m.
       Inr (ustr ''Current brightness: '' @ c @ ustr ''/'' @ m @ ustr '' ('' @
            format_2f percentage @ ustr ''%)'')))"

definition print_line :: "pystr \<Rightarrow> unit io" where
  "print_line s w = (Inr (), w\<lparr>stdout := stdout w @ s @ [10]\<rparr>)"

definition print_current_brightness :: "unit io" where
  "print_current_brightness =
     bind_io read_max_brightness (\<lambda>max_brightness'.
       bind_io read_brightness (\<lambda>cur_brightness.
         bind_io (lift_res (int_true_divide (cur_brightness * 100) max_brightness'))
           (\<lambda>percentage_brightness.
             bind_io
               (lift_res (output_line cur_brightness max_brightness' percentage_brightness))
               print_line)))"

text \<open>
  \<open>main\<close> after \<open>docopt\<close> has read the command line: either \<open>set\<close> with its value, or
  \<open>show\<close>. A \<open>ValueError\<close> from either command is turned into \<open>DocoptExit\<close>, whose
  message is that of the error followed by the usage text; any other exception leaves
  \<open>main\<close> uncaught. Both end the process with status 1.
\<close>

datatype args = Show | Set pystr

datatype outcome = Returned | DocoptExit message | Uncaught error

definition main :: "args \<Rightarrow> world \<Rightarrow> outcome \<times> world" where
  "main a w =
     (case (case a of Set v \<Rightarrow> set_current_brightness v w | Show \<Rightarrow> print_current_brightness w) of
        (Inr u, w') \<Rightarrow> (Returned, w')
      | (Inl (ValueError m), w') \<Rightarrow> (DocoptExit m, w')
      | (Inl e, w') \<Rightarrow> (Uncaught e, w'))"

definition exit_status :: "outcome \<Rightarrow> nat" where
  "exit_status out = (case out of Returned \<Rightarrow> 0 | DocoptExit m \<Rightarrow> 1 | Uncaught e \<Rightarrow> 1)"


section \<open>Notions of the specification\<close>

text \<open>
  The number a string of decimal digits denotes in base 10, most significant digit
  first: \<open>ascii_number\<close> for ASCII digits, \<open>base10\<close> with the digit values of the
  Unicode table.
\<close>

definition decimal_value :: "pychar \<Rightarrow> int" where
  "decimal_value c = (case todecimal c of None \<Rightarrow> 0 | Some d \<Rightarrow> int d)"

definition base10 :: "pystr \<Rightarrow> int" where
  "base10 ds = horner_sum decimal_value 10 (rev ds)"

definition ascii_number :: "pystr \<Rightarrow> int" where
  "ascii_number ds = horner_sum (\<lambda>c. int c - 48) 10 (rev ds)"

definition opt_str :: "pychar option \<Rightarrow> pystr" where
  "opt_str g = (case g of None \<Rightarrow> [] | Some c \<Rightarrow> [c])"

text \<open>
  The grammar \<open>expr := sign? digits percent?\<close> over a given class of digits: the whole
  string is an optional sign, then at least one digit, then an optional percent sign.
\<close>

definition expr_grammar :: "(pychar \<Rightarrow> bool) \<Rightarrow> pystr \<Rightarrow> bool" where
  "expr_grammar digit v =
     (\<exists>s \<in> {[], [43], [45]}. \<exists>p \<in> {[], [37]}.
        length s + length p < length v \<and>
        take (length s) v = s \<and>
        drop (length v - length p) v = p \<and>
        list_all digit (drop (length s) (take (length v - length p) v)))"

text \<open>
  An integer literal after its sign: a digit, then further digits, each of which may be
  preceded by one underscore. \<open>body_digits\<close> are its digits.
\<close>

fun literal_tail :: "(pychar \<Rightarrow> bool) \<Rightarrow> pystr \<Rightarrow> bool" where
  "literal_tail dg [] = True"
| "literal_tail dg [c] = dg c"
| "literal_tail dg (c # d # cs) =
     (if dg c then literal_tail dg (d # cs) else c = 95 \<and> dg d \<and> literal_tail dg cs)"

definition literal_body :: "(pychar \<Rightarrow> bool) \<Rightarrow> pystr \<Rightarrow> bool" where
  "literal_body dg body = (case body of [] \<Rightarrow> False | c # cs \<Rightarrow> dg c \<and> literal_tail dg cs)"

definition body_digits :: "pystr \<Rightarrow> pystr" where
  "body_digits body = filter (\<lambda>c. c \<noteq> 95) body"

text \<open>The blanks \<open>int\<close> strips: the ASCII ones above and the Unicode blanks from 127 on.\<close>

definition is_blank :: "pychar \<Rightarrow> bool" where
  "is_blank c = (is_c_space c \<or> (127 \<le> c \<and> is_unicode_space c))"

text \<open>A device with the given contents of \<open>brightness\<close> and \<open>max_brightness\<close>, both
  accessible, before anything has been opened or printed.\<close>

definition device :: "pystr \<Rightarrow> pystr \<Rightarrow> world" where
  "device cur mx =
     \<lparr>brightness = cur, max_brightness = mx, can_read_brightness = True,
      can_read_max_brightness = True, can_write_brightness = True, stdout = [], opened = []\<rparr>"

text \<open>The integer nearest to a rational number, ties to the even one.\<close>

definition round_half_even :: "rat \<Rightarrow> int" where
  "round_half_even x =
     (if x - of_int \<lfloor>x\<rfloor> < 1 / 2 then \<lfloor>x\<rfloor>
      else if 1 / 2 < x - of_int \<lfloor>x\<rfloor> then \<lfloor>x\<rfloor> + 1
      else if even \<lfloor>x\<rfloor> then \<lfloor>x\<rfloor>
      else \<lfloor>x\<rfloor> + 1)"

text \<open>The rational number a double stands for.\<close>

definition float_value :: "pyfloat \<Rightarrow> rat" where
  "float_value f = (if negative f then - 1 else 1) * of_nat (mantissa f) * 2 powi exponent f"

section \<open>Facts about the tables\<close>

lemma decimal_runs_ge: "\<forall>s \<in> set decimal_runs. 48 \<le> s"
  by (simp add: decimal_runs_def)

lemma decimal_runs_tail_ge: "\<forall>s \<in> set (tl decimal_runs). 1632 \<le> s"
  by (simp add: decimal_runs_def)

lemma hd_decimal_runs: "decimal_runs = 48 # tl decimal_runs"
  by (simp add: decimal_runs_def)

lemma todecimal_SomeD:
  assumes "todecimal c = Some d"
  shows "d < 10 \<and> c - d \<in> set decimal_runs \<and> d \<le> c"
proof -
  from assms obtain s where f: "find (\<lambda>s. s \<le> c \<and> c < s + 10) decimal_runs = Some s" and d: "d = c - s"
    by (auto simp: todecimal_def split: option.splits)
  from f have "s \<in> set decimal_runs" "s \<le> c" "c < s + 10"
    by (auto simp: find_Some_iff)
  with d show ?thesis by auto
qed

lemma todecimal_ascii: "is_ascii_digit c \<Longrightarrow> todecimal c = Some (c - 48)"
  unfolding todecimal_def by (subst hd_decimal_runs) (simp add: is_ascii_digit_def)

lemma todecimal_below: "c < 48 \<Longrightarrow> todecimal c = None"
proof (rule ccontr)
  assume c: "c < 48" and "todecimal c \<noteq> None"
  then obtain d where "todecimal c = Some d" by auto
  from todecimal_SomeD[OF this] decimal_runs_ge have "48 \<le> c - d" by blast
  with c show False by simp
qed

lemma todecimal_low:
  assumes "c < 1632" shows "todecimal c = (if is_ascii_digit c then Some (c - 48) else None)"
proof (cases "is_ascii_digit c")
  case True then show ?thesis by (simp add: todecimal_ascii)
next
  case False
  have "todecimal c = None"
  proof (rule ccontr)
    assume "todecimal c \<noteq> None"
    then obtain d where d: "todecimal c = Some d" by auto
    from todecimal_SomeD[OF d] have m: "c - d \<in> set decimal_runs" and dl: "d < 10" "d \<le> c" by auto
    from m have "c - d = 48 \<or> c - d \<in> set (tl decimal_runs)"
      by (subst (asm) hd_decimal_runs) auto
    then show False
    proof
      assume "c - d = 48" with dl False show False by (auto simp: is_ascii_digit_def)
    next
      assume "c - d \<in> set (tl decimal_runs)"
      with decimal_runs_tail_ge have "1632 \<le> c - d" by blast
      with assms show False by simp
    qed
  qed
  with False show ?thesis by simp
qed

lemma is_decimal_ascii [simp]: "is_ascii_digit c \<Longrightarrow> is_decimal c"
  by (simp add: is_decimal_def todecimal_ascii)

lemma not_decimal_below: "c < 48 \<Longrightarrow> \<not> is_decimal c"
  by (simp add: is_decimal_def todecimal_below)

lemma spaces_not_decimal: "\<forall>c \<in> set unicode_spaces. 127 \<le> c \<longrightarrow> todecimal c = None"
  by (simp add: unicode_spaces_def todecimal_def decimal_runs_def)

section \<open>The integer parser and the expression matcher\<close>

lemma decimal_value_ascii: "is_ascii_digit c \<Longrightarrow> decimal_value c = int c - 48"
  by (simp add: decimal_value_def todecimal_ascii is_ascii_digit_def)

lemma ascii_of_decimal:
  assumes "is_decimal c"
  shows "is_ascii_digit (ascii_of c) \<and> int (ascii_of c) - 48 = decimal_value c"
proof (cases "c < 127")
  case True
  then have "todecimal c = (if is_ascii_digit c then Some (c - 48) else None)"
    by (intro todecimal_low) simp
  with assms have "is_ascii_digit c" by (auto simp: is_decimal_def split: if_splits)
  with True show ?thesis by (simp add: ascii_of_def decimal_value_ascii)
next
  case False
  from assms obtain d where d: "todecimal c = Some d" by (auto simp: is_decimal_def)
  with False spaces_not_decimal have "\<not> is_unicode_space c"
    by (auto simp: is_unicode_space_def)
  moreover from todecimal_SomeD[OF d] have "d < 10" by simp
  ultimately show ?thesis using False d
    by (simp add: ascii_of_def is_ascii_digit_def decimal_value_def)
qed

lemma digits_tail_digit:
  "is_ascii_digit c \<Longrightarrow>
   digits_tail acc k (c # cs) = digits_tail (10 * acc + (int c - 48)) (Suc k) cs"
  by (cases cs) simp_all

lemma digits_tail_all:
  "list_all is_ascii_digit ds \<Longrightarrow>
   digits_tail acc k ds =
     Some (foldl (\<lambda>a c. 10 * a + (int c - 48)) acc ds, k + length ds, [])"
  by (induction ds arbitrary: acc k) (simp_all add: digits_tail_digit)

lemma foldl_horner:
  "foldl (\<lambda>a c. 10 * a + f c) acc ds = acc * 10 ^ length ds + horner_sum f (10::int) (rev ds)"
  by (induction ds arbitrary: acc) (simp_all add: horner_sum_append algebra_simps)

lemma foldl_map_ascii:
  "list_all is_decimal ds \<Longrightarrow>
   foldl (\<lambda>a c. 10 * a + (int c - 48)) acc (map ascii_of ds) =
   foldl (\<lambda>a c. 10 * a + decimal_value c) acc ds"
  by (induction ds arbitrary: acc) (simp_all add: ascii_of_decimal)

lemma ascii_digit_not_space: "is_ascii_digit c \<Longrightarrow> \<not> is_c_space c"
  by (auto simp: is_ascii_digit_def is_c_space_def)

lemma long_from_string_digits:
  assumes "ds \<noteq> []" "list_all is_ascii_digit ds"
  shows "long_from_string ds =
    (if max_str_digits < length ds then TooLong (length ds)
     else Number (foldl (\<lambda>a c. 10 * a + (int c - 48)) 0 ds))"
proof -
  from assms obtain c cs where ds: "ds = c # cs" by (cases ds) auto
  with assms have c: "is_ascii_digit c" and cs: "list_all is_ascii_digit cs" by auto
  from c have ns: "\<not> is_c_space c" "c \<noteq> 43" "c \<noteq> 45"
    by (auto simp: is_ascii_digit_def is_c_space_def)
  show ?thesis
    using c ns digits_tail_all[OF cs]
    by (simp add: ds long_from_string_def skip_sign_def long_digits_def is_negative_def)
qed

lemma py_int_decimal:
  assumes "ds \<noteq> []" "list_all is_decimal ds"
  shows "py_int ds =
    (if max_str_digits < length ds then Inl (ValueError (ExceedsLimitToInt (length ds)))
     else Inr (base10 ds))"
proof -
  from assms(2) have a: "list_all is_ascii_digit (map ascii_of ds)"
    by (induction ds) (simp_all add: ascii_of_decimal)
  from assms(1) have "map ascii_of ds \<noteq> []" by simp
  from long_from_string_digits[OF this a] foldl_map_ascii[OF assms(2)]
  show ?thesis
    by (simp add: py_int_def base10_def foldl_horner)
qed

lemma decimal_not_special: "is_decimal c \<Longrightarrow> c \<noteq> 43 \<and> c \<noteq> 45 \<and> c \<noteq> 37"
  using not_decimal_below[of c] by auto

lemma fullmatch_groups_intro:
  assumes "g1 \<noteq> []" "list_all is_decimal g1"
    and "g0 \<in> {None, Some 43, Some 45}" "g2 \<in> {None, Some 37}"
  shows "fullmatch_groups (opt_str g0 @ g1 @ opt_str g2) = Some (g0, g1, g2)"
proof -
  from assms obtain d ds where g1: "g1 = d # ds" by (cases g1) auto
  with assms have d: "is_decimal d" by simp
  from assms(2) have all: "\<And>x. x \<in> set g1 \<Longrightarrow> is_decimal x" by (simp add: list_all_iff)
  have s: "opt_sign (opt_str g0 @ g1 @ opt_str g2) = g0"
    using assms(3) decimal_not_special[OF d] by (auto simp: opt_sign_def opt_str_def g1)
  have a: "after_sign (opt_str g0 @ g1 @ opt_str g2) = g1 @ opt_str g2"
    unfolding after_sign_def s using assms(3) by (auto simp: opt_str_def)
  have np: "\<not> is_decimal 37" by (rule not_decimal_below) simp
  have t: "takeWhile is_decimal (g1 @ opt_str g2) = g1"
    using assms(4) np by (auto simp: takeWhile_append2[OF all] opt_str_def)
  have dr: "dropWhile is_decimal (g1 @ opt_str g2) = opt_str g2"
    using assms(4) np by (auto simp: dropWhile_append2[OF all] opt_str_def)
  show ?thesis
    unfolding fullmatch_groups_def s a t dr using assms(4) by (auto simp: g1 opt_str_def)
qed

lemma groups_of_SomeD:
  "groups_of g0 g1 t = Some r \<Longrightarrow>
   g1 \<noteq> [] \<and> (\<exists>g2 \<in> {None, Some 37}. t = opt_str g2 \<and> r = (g0, g1, g2))"
  by (induction g0 g1 t rule: groups_of.induct) (auto simp: opt_str_def split: if_splits)

lemma opt_sign_after_sign: "opt_str (opt_sign v) @ after_sign v = v"
  by (cases v) (auto simp: opt_sign_def after_sign_def opt_str_def)

lemma opt_sign_range: "opt_sign v \<in> {None, Some 43, Some 45}"
  by (cases v) (auto simp: opt_sign_def)

lemma fullmatch_groups_SomeD:
  assumes "fullmatch_groups v = Some (g0, g1, g2)"
  shows "v = opt_str g0 @ g1 @ opt_str g2 \<and> g1 \<noteq> [] \<and> list_all is_decimal g1 \<and>
         g0 \<in> {None, Some 43, Some 45} \<and> g2 \<in> {None, Some 37}"
proof -
  let ?r = "after_sign v"
  from assms have g: "groups_of (opt_sign v) (takeWhile is_decimal ?r) (dropWhile is_decimal ?r) = Some (g0, g1, g2)"
    by (simp add: fullmatch_groups_def)
  from groups_of_SomeD[OF g] have
    e: "g0 = opt_sign v" "g1 = takeWhile is_decimal ?r" "dropWhile is_decimal ?r = opt_str g2"
    and ne: "g1 \<noteq> []" and g2: "g2 \<in> {None, Some 37}" by auto
  have "v = opt_str (opt_sign v) @ (takeWhile is_decimal ?r @ dropWhile is_decimal ?r)"
    by (simp add: opt_sign_after_sign)
  then have "v = opt_str g0 @ g1 @ opt_str g2" using e by simp
  moreover have "list_all is_decimal g1"
    unfolding e(2) list_all_iff by (auto dest: set_takeWhileD)
  ultimately show ?thesis using ne g2 opt_sign_range[of v] e(1) by simp
qed

lemma expr_grammar_iff:
  "expr_grammar digit v \<longleftrightarrow>
   (\<exists>s ds p. v = s @ ds @ p \<and> s \<in> {[], [43], [45]} \<and> ds \<noteq> [] \<and> list_all digit ds \<and> p \<in> {[], [37]})"
  (is "?L \<longleftrightarrow> ?R")
proof
  assume ?L
  then obtain s p where sp: "s \<in> {[], [43], [45]}" "p \<in> {[], [37]}"
    and len: "length s + length p < length v"
    and ts: "take (length s) v = s" and dp: "drop (length v - length p) v = p"
    and all: "list_all digit (drop (length s) (take (length v - length p) v))"
    unfolding expr_grammar_def by blast
  let ?ds = "drop (length s) (take (length v - length p) v)"
  have "v = take (length v - length p) v @ drop (length v - length p) v" by simp
  also have "take (length v - length p) v = take (length s) (take (length v - length p) v) @ ?ds"
    by (simp only: append_take_drop_id)
  also have "take (length s) (take (length v - length p) v) = take (length s) v"
  proof -
    have "length s \<le> length v - length p" using len by arith
    then show ?thesis by (simp add: min_absorb1)
  qed
  finally have "v = s @ ?ds @ p" using ts dp by simp
  moreover have "?ds \<noteq> []" using len by simp
  ultimately show ?R using sp all by blast
next
  assume ?R
  then obtain s ds p where v: "v = s @ ds @ p" and sp: "s \<in> {[], [43], [45]}" "p \<in> {[], [37]}"
    and ds: "ds \<noteq> []" "list_all digit ds" by blast
  have "length s + length p < length v" using ds v by (cases ds) auto
  moreover have "take (length s) v = s" by (simp add: v)
  moreover have "drop (length v - length p) v = p" by (simp add: v)
  moreover have "drop (length s) (take (length v - length p) v) = ds" by (simp add: v)
  ultimately show ?L unfolding expr_grammar_def using sp ds by metis
qed

lemma fullmatch_groups_iff: "fullmatch_groups v \<noteq> None \<longleftrightarrow> expr_grammar is_decimal v"
proof
  assume "fullmatch_groups v \<noteq> None"
  then obtain g0 g1 g2 where "fullmatch_groups v = Some (g0, g1, g2)" by (cases "fullmatch_groups v") auto
  from fullmatch_groups_SomeD[OF this] show "expr_grammar is_decimal v"
    unfolding expr_grammar_iff
    by (intro exI[of _ "opt_str g0"] exI[of _ g1] exI[of _ "opt_str g2"]) (auto simp: opt_str_def)
next
  assume "expr_grammar is_decimal v"
  then obtain s ds p where v: "v = s @ ds @ p" and sp: "s \<in> {[], [43], [45]}" "p \<in> {[], [37]}"
    and ds: "ds \<noteq> []" "list_all is_decimal ds" unfolding expr_grammar_iff by blast
  from sp(1) have "\<exists>g0 \<in> {None, Some 43, Some 45}. s = opt_str g0"
    by (auto simp: opt_str_def)
  then obtain g0 where g0: "g0 \<in> {None, Some 43, Some 45}" "s = opt_str g0" by blast
  from sp(2) have "\<exists>g2 \<in> {None, Some 37}. p = opt_str g2"
    by (auto simp: opt_str_def)
  then obtain g2 where g2: "g2 \<in> {None, Some 37}" "p = opt_str g2" by blast
  from fullmatch_groups_intro[OF ds g0(1) g2(1)] show "fullmatch_groups v \<noteq> None"
    by (simp add: v g0 g2)
qed

section \<open>Classification of value expressions\<close>

lemma base10_ascii: "list_all is_ascii_digit ds \<Longrightarrow> base10 ds = ascii_number ds"
  unfolding base10_def ascii_number_def
  by (induction ds) (simp_all add: horner_sum_append decimal_value_ascii)

lemma parse_groups:
  assumes "g1 \<noteq> []" "list_all is_decimal g1"
    and "g0 \<in> {None, Some 43, Some 45}" "g2 \<in> {None, Some 37}"
  shows "parse (opt_str g0 @ g1 @ opt_str g2) =
     (if max_str_digits < length g1 then Inl (ValueError (ExceedsLimitToInt (length g1)))
      else Inr (case (g0, g2) of
            (None, None) \<Rightarrow> Absolute (base10 g1)
          | (None, Some _) \<Rightarrow> AbsolutePercent (base10 g1)
          | (Some s, None) \<Rightarrow> Relative (sign_of s) (base10 g1)
          | (Some s, Some _) \<Rightarrow> RelativePercent (sign_of s) (base10 g1)))"
  by (simp add: parse_def fullmatch_groups_intro[OF assms] py_int_decimal[OF assms(1,2)] bind_res_def)

lemma filter_decimal_groups:
  assumes "list_all is_decimal g1" "g0 \<in> {None, Some 43, Some 45}" "g2 \<in> {None, Some 37}"
  shows "filter is_decimal (opt_str g0 @ g1 @ opt_str g2) = g1"
proof -
  have n: "\<not> is_decimal 43" "\<not> is_decimal 45" "\<not> is_decimal 37"
    by (simp_all add: not_decimal_below)
  from assms(1) have "filter is_decimal g1 = g1" by (simp add: list_all_iff)
  with assms(2,3) n show ?thesis by (auto simp: opt_str_def)
qed

text \<open>
  Claim C1, as the code has it. A string made of an optional sign, one or more ASCII
  digits and an optional percent sign selects the option that goes with its sign and
  percent sign, and the number of the option is the digits read in base 10, provided
  there are at most 4300 digits: no sign and no percent gives \<open>Absolute\<close>, percent only
  \<open>AbsolutePercent\<close>, a sign only \<open>Relative\<close> with that sign, both \<open>RelativePercent\<close>
  with that sign. With more digits \<open>int(groups[1])\<close> raises \<open>ValueError\<close> and no option
  is selected, as the counterexample below shows for 4301 digits.
\<close>

theorem parse_classifies:
  assumes "ds \<noteq> []" and "list_all is_ascii_digit ds"
  shows "(length ds \<le> max_str_digits \<longrightarrow>
           parse ds = Inr (Absolute (ascii_number ds)) \<and>
           parse (ds @ [37]) = Inr (AbsolutePercent (ascii_number ds)) \<and>
           parse (43 # ds) = Inr (Relative Plus (ascii_number ds)) \<and>
           parse (45 # ds) = Inr (Relative Minus (ascii_number ds)) \<and>
           parse (43 # ds @ [37]) = Inr (RelativePercent Plus (ascii_number ds)) \<and>
           parse (45 # ds @ [37]) = Inr (RelativePercent Minus (ascii_number ds))) \<and>
         (max_str_digits < length ds \<longrightarrow>
           parse ds = Inl (ValueError (ExceedsLimitToInt (length ds))) \<and>
           parse (ds @ [37]) = Inl (ValueError (ExceedsLimitToInt (length ds))) \<and>
           parse (43 # ds) = Inl (ValueError (ExceedsLimitToInt (length ds))) \<and>
           parse (45 # ds) = Inl (ValueError (ExceedsLimitToInt (length ds))) \<and>
           parse (43 # ds @ [37]) = Inl (ValueError (ExceedsLimitToInt (length ds))) \<and>
           parse (45 # ds @ [37]) = Inl (ValueError (ExceedsLimitToInt (length ds))))"
proof -
  from assms(2) have d: "list_all is_decimal ds" by (simp add: list_all_iff)
  note p = parse_groups[OF assms(1) d]
  show ?thesis
    using p[of None None] p[of None "Some 37"] p[of "Some 43" None] p[of "Some 45" None]
      p[of "Some 43" "Some 37"] p[of "Some 45" "Some 37"]
    by (simp add: opt_str_def sign_of_def base10_ascii[OF assms(2)])
qed

theorem parse_classifies_witness:
  "ustr ''070'' \<noteq> [] \<and> list_all is_ascii_digit (ustr ''070'') \<and>
   length (ustr ''070'') \<le> max_str_digits \<and>
   parse (ustr ''070'') = Inr (Absolute 70) \<and>
   parse (ustr ''070%'') = Inr (AbsolutePercent 70) \<and>
   parse (ustr ''+070'') = Inr (Relative Plus 70) \<and>
   parse (ustr ''-070'') = Inr (Relative Minus 70) \<and>
   parse (ustr ''+070%'') = Inr (RelativePercent Plus 70) \<and>
   parse (ustr ''-070%'') = Inr (RelativePercent Minus 70)"
  using parse_classifies[of "ustr ''070''"]
  by (simp add: ustr_def is_ascii_digit_def ascii_number_def max_str_digits_def)

theorem parse_long_digits_counterexample:
  "replicate (Suc max_str_digits) 49 \<noteq> [] \<and>
   list_all is_ascii_digit (replicate (Suc max_str_digits) 49) \<and>
   parse (replicate (Suc max_str_digits) 49) =
     Inl (ValueError (ExceedsLimitToInt (Suc max_str_digits)))"
proof -
  have a: "is_ascii_digit 49" by (simp add: is_ascii_digit_def)
  then have d: "list_all is_decimal (replicate (Suc max_str_digits) 49)"
    by (simp add: list_all_iff)
  have n: "replicate (Suc max_str_digits) (49::nat) \<noteq> []" by simp
  from parse_groups[OF n d, of None None]
  have "parse (replicate (Suc max_str_digits) 49) =
     Inl (ValueError (ExceedsLimitToInt (Suc max_str_digits)))"
    by (simp add: opt_str_def)
  with a show ?thesis by (simp add: list_all_iff)
qed

lemma parse_cases:
  "parse v = Inl (ValueError NoMessage) \<and> fullmatch_groups v = None \<or>
   fullmatch_groups v \<noteq> None \<and>
     (if max_str_digits < length (filter is_decimal v)
      then parse v = Inl (ValueError (ExceedsLimitToInt (length (filter is_decimal v))))
      else \<exists>d. parse v = Inr d)"
proof (cases "fullmatch_groups v")
  case None then show ?thesis by (simp add: parse_def)
next
  case (Some r)
  obtain g0 g1 g2 where r: "r = (g0, g1, g2)" by (cases r)
  from fullmatch_groups_SomeD[OF Some[unfolded r]]
  have v: "v = opt_str g0 @ g1 @ opt_str g2" and g: "g1 \<noteq> []" "list_all is_decimal g1"
    "g0 \<in> {None, Some 43, Some 45}" "g2 \<in> {None, Some 37}" by simp_all
  have f: "filter is_decimal v = g1" unfolding v by (rule filter_decimal_groups[OF g(2,3,4)])
  have "parse v =
     (if max_str_digits < length g1 then Inl (ValueError (ExceedsLimitToInt (length g1)))
      else Inr (case (g0, g2) of
            (None, None) \<Rightarrow> Absolute (base10 g1)
          | (None, Some _) \<Rightarrow> AbsolutePercent (base10 g1)
          | (Some s, None) \<Rightarrow> Relative (sign_of s) (base10 g1)
          | (Some s, Some _) \<Rightarrow> RelativePercent (sign_of s) (base10 g1)))"
    unfolding v by (rule parse_groups[OF g])
  then show ?thesis unfolding f using Some by simp
qed

text \<open>
  Claim C2, as the code has it. The value is rejected with the message-less
  \<open>ValueError\<close> exactly when the whole string is not an optional sign, one or more
  decimal digits and an optional percent sign, where the decimal digits are those of
  Unicode, the class \<open>\d\<close> of a \<open>str\<close> pattern. A string of that grammar is accepted
  when it has at most 4300 digits, and rejected by the \<open>ValueError\<close> of \<open>int\<close> when it
  has more. So every string of the ASCII grammar with at most 4300 digits is accepted,
  and so are strings whose digits are other Unicode decimal digits, as the counterexample
  below shows for U+0663, which refutes the last part of the claim as stated.
\<close>

theorem parse_rejects_iff:
  "(parse v = Inl (ValueError NoMessage) \<longleftrightarrow> \<not> expr_grammar is_decimal v) \<and>
   ((\<exists>d. parse v = Inr d) \<longleftrightarrow>
      expr_grammar is_decimal v \<and> length (filter is_decimal v) \<le> max_str_digits) \<and>
   (expr_grammar is_decimal v \<and> max_str_digits < length (filter is_decimal v) \<longrightarrow>
      parse v = Inl (ValueError (ExceedsLimitToInt (length (filter is_decimal v))))) \<and>
   (expr_grammar is_ascii_digit v \<longrightarrow> expr_grammar is_decimal v)"
proof -
  have "expr_grammar is_ascii_digit v \<longrightarrow> expr_grammar is_decimal v"
  proof
    assume "expr_grammar is_ascii_digit v"
    then obtain s ds p where v: "v = s @ ds @ p" "s \<in> {[], [43], [45]}" "ds \<noteq> []"
      "p \<in> {[], [37]}" and a: "list_all is_ascii_digit ds"
      unfolding expr_grammar_iff by blast
    from a have "list_all is_decimal ds" by (simp add: list_all_iff)
    with v show "expr_grammar is_decimal v" unfolding expr_grammar_iff by blast
  qed
  then show ?thesis
    using parse_cases[of v] fullmatch_groups_iff[of v] by (auto split: if_splits)
qed

lemma todecimal_1635: "todecimal 1635 = Some 3"
  by (simp add: todecimal_def decimal_runs_def)

theorem parse_non_ascii_counterexample:
  "\<not> expr_grammar is_ascii_digit [1635] \<and> parse [1635] = Inr (Absolute 3)"
proof -
  have d: "is_decimal 1635" by (simp add: is_decimal_def todecimal_1635)
  have "base10 [1635] = 3" by (simp add: base10_def decimal_value_def todecimal_1635)
  with parse_groups[of "[1635]" None None] d have "parse [1635] = Inr (Absolute 3)"
    by (simp add: opt_str_def max_str_digits_def)
  moreover have "\<not> expr_grammar is_ascii_digit [1635]"
    by (simp add: expr_grammar_def is_ascii_digit_def)
  ultimately show ?thesis by simp
qed

lemma not_decimal_examples:
  "\<not> is_decimal 97" "\<not> is_decimal 43" "\<not> is_decimal 45" "\<not> is_decimal 37" "\<not> is_decimal 32"
  "\<not> is_decimal 10" "is_decimal 53"
  by (simp_all add: is_decimal_def todecimal_low is_ascii_digit_def)

theorem parse_rejects_iff_witness:
  "parse (ustr '''') = Inl (ValueError NoMessage) \<and>
   parse (ustr ''abc'') = Inl (ValueError NoMessage) \<and>
   parse (ustr ''+-5'') = Inl (ValueError NoMessage) \<and>
   parse (ustr ''5%%'') = Inl (ValueError NoMessage) \<and>
   parse (ustr ''5 %'') = Inl (ValueError NoMessage) \<and>
   parse (ustr ''%5'') = Inl (ValueError NoMessage) \<and>
   parse (ustr ''5+'') = Inl (ValueError NoMessage) \<and>
   parse (ustr ''5a'') = Inl (ValueError NoMessage) \<and>
   parse (ustr ''5'' @ [10]) = Inl (ValueError NoMessage) \<and>
   (\<exists>d. parse (ustr ''+5%'') = Inr d)"
  using parse_rejects_iff[of "ustr ''''"] parse_rejects_iff[of "ustr ''abc''"]
    parse_rejects_iff[of "ustr ''+-5''"] parse_rejects_iff[of "ustr ''5%%''"]
    parse_rejects_iff[of "ustr ''5 %''"] parse_rejects_iff[of "ustr ''%5''"]
    parse_rejects_iff[of "ustr ''5+''"] parse_rejects_iff[of "ustr ''5a''"]
    parse_rejects_iff[of "ustr ''5'' @ [10]"] parse_rejects_iff[of "ustr ''+5%''"]
  by (simp add: ustr_def expr_grammar_def not_decimal_examples max_str_digits_def)

section \<open>Sequencing, decimal output and integer literals\<close>

lemma bind_io_return [simp]: "bind_io (return_io x) f = f x"
  by (rule ext) (simp add: bind_io_def return_io_def)

lemma bind_io_lift_Inr [simp]: "bind_io (lift_res (Inr x)) f = f x"
  by (rule ext) (simp add: bind_io_def lift_res_def)

lemma bind_io_lift_Inl [simp]: "bind_io (lift_res (Inl e)) f w = (Inl e, w)"
  by (simp add: bind_io_def lift_res_def)

lemma bind_io_assoc: "bind_io (bind_io m f) g = bind_io m (\<lambda>x. bind_io (f x) g)"
  by (rule ext) (simp add: bind_io_def split: prod.splits sum.splits)

lemma bind_io_lift_bind_res:
  "bind_io (lift_res (bind_res r f)) g = bind_io (lift_res r) (\<lambda>x. bind_io (lift_res (f x)) g)"
  by (rule ext) (cases r; simp add: bind_res_def)

lemma bind_res_Inr [simp]: "bind_res (Inr x) f = f x"
  by (simp add: bind_res_def)

lemma known_Some [simp]: "known (Some x) = Inr x"
  by (simp add: known_def)

lemma set_current_brightness_groups:
  assumes "g1 \<noteq> []" "list_all is_decimal g1"
    and "g0 \<in> {None, Some 43, Some 45}" "g2 \<in> {None, Some 37}"
    and len: "length g1 \<le> max_str_digits"
  shows "set_current_brightness (opt_str g0 @ g1 @ opt_str g2) =
     bind_io (compute (case (g0, g2) of
            (None, None) \<Rightarrow> Absolute (base10 g1)
          | (None, Some _) \<Rightarrow> AbsolutePercent (base10 g1)
          | (Some s, None) \<Rightarrow> Relative (sign_of s) (base10 g1)
          | (Some s, Some _) \<Rightarrow> RelativePercent (sign_of s) (base10 g1))) write_brightness"
proof -
  note fm = fullmatch_groups_intro[OF assms(1-4)]
  have pi: "py_int g1 = Inr (base10 g1)" using py_int_decimal[OF assms(1,2)] len by simp
  have s: "set_current_brightness (opt_str g0 @ g1 @ opt_str g2) =
      bind_io
            (if g0 \<noteq> None then bind_io read_brightness (\<lambda>c. return_io (Some c))
             else return_io None)
            (\<lambda>cur_brightness.
              bind_io
                (if g2 \<noteq> None then bind_io read_max_brightness (\<lambda>m. return_io (Some m))
                 else return_io None)
                (\<lambda>max_brightness'.
                  bind_io (lift_res (new_brightness g0 g1 g2 cur_brightness max_brightness'))
                    write_brightness))"
    by (rule ext) (simp add: set_current_brightness_def fm)
  from assms(3,4) consider
      "g0 = None" "g2 = None" | "g0 = None" "g2 = Some 37"
    | "g0 = Some 43" "g2 = None" | "g0 = Some 45" "g2 = None"
    | "g0 = Some 43" "g2 = Some 37" | "g0 = Some 45" "g2 = Some 37" by auto
  then show ?thesis
  proof cases
    case 1 then show ?thesis unfolding s by (simp add: new_brightness_def pi)
  next
    case 2 then show ?thesis unfolding s
      by (simp add: new_brightness_def pi bind_io_assoc)
  next
    case 3 then show ?thesis unfolding s
      by (simp add: new_brightness_def pi bind_io_assoc sign_of_def)
  next
    case 4 then show ?thesis unfolding s
      by (simp add: new_brightness_def pi bind_io_assoc sign_of_def)
  next
    case 5 then show ?thesis unfolding s
      by (simp add: new_brightness_def pi bind_io_assoc sign_of_def bind_io_lift_bind_res)
  next
    case 6 then show ?thesis unfolding s
      by (simp add: new_brightness_def pi bind_io_assoc sign_of_def bind_io_lift_bind_res)
  qed
qed

lemma set_current_brightness_factors:
  assumes "parse v = Inr d"
  shows "set_current_brightness v w = bind_io (compute d) write_brightness w"
proof (cases "fullmatch_groups v")
  case None
  with assms show ?thesis by (simp add: parse_def)
next
  case (Some r)
  obtain g0 g1 g2 where r: "r = (g0, g1, g2)" by (cases r)
  from fullmatch_groups_SomeD[OF Some[unfolded r]]
  have v: "v = opt_str g0 @ g1 @ opt_str g2" and g: "g1 \<noteq> []" "list_all is_decimal g1"
    "g0 \<in> {None, Some 43, Some 45}" "g2 \<in> {None, Some 37}" by simp_all
  have len: "length g1 \<le> max_str_digits"
    using assms parse_groups[OF g] unfolding v by (auto split: if_splits)
  show ?thesis
    using assms len unfolding v set_current_brightness_groups[OF g len] parse_groups[OF g]
    by simp
qed

lemma set_current_brightness_too_long:
  assumes "ds \<noteq> []" "list_all is_decimal ds" "max_str_digits < length ds"
  shows "set_current_brightness ds w = (Inl (ValueError (ExceedsLimitToInt (length ds))), w)"
proof -
  have fm: "fullmatch_groups ds = Some (None, ds, None)"
    using fullmatch_groups_intro[OF assms(1,2), of None None] by (simp add: opt_str_def)
  have pi: "py_int ds = Inl (ValueError (ExceedsLimitToInt (length ds)))"
    using py_int_decimal[OF assms(1,2)] assms(3) by simp
  show ?thesis
    by (simp add: set_current_brightness_def fm new_brightness_def pi)
qed

subsection \<open>Decimal output\<close>

lemma dec_digits: "list_all is_ascii_digit (dec n)"
proof (induction n rule: dec.induct)
  case (1 n)
  have m: "is_ascii_digit (48 + n mod 10)" by (simp add: is_ascii_digit_def)
  show ?case
  proof (cases "n < 10")
    case True
    then show ?thesis by (subst dec.simps) (simp add: is_ascii_digit_def)
  next
    case False
    with 1 m show ?thesis by (subst dec.simps) simp
  qed
qed

lemma dec_nonempty: "dec n \<noteq> []"
  by (subst dec.simps) simp




lemma newline_not_in_dec: "10 \<notin> set (dec n)"
  using dec_digits[of n] by (auto simp: list_all_iff is_ascii_digit_def)

lemma newline_not_in_decimal_text: "10 \<notin> set (decimal_text n)"
  by (simp add: decimal_text_def newline_not_in_dec)

lemma length_dec_le: "0 < k \<Longrightarrow> length (dec m) \<le> k \<longleftrightarrow> m < 10 ^ k"
proof (induction m arbitrary: k rule: dec.induct)
  case (1 m)
  show ?case
  proof (cases "m < 10")
    case True
    have "(10::nat) ^ 1 \<le> 10 ^ k" using 1(2) by (intro power_increasing) simp_all
    with True 1(2) show ?thesis by (subst dec.simps) simp
  next
    case False
    show ?thesis
    proof (cases k)
      case 0
      with 1(2) show ?thesis by simp
    next
      case (Suc k')
      show ?thesis
      proof (cases "k' = 0")
        case True
        with False Suc show ?thesis by (subst dec.simps) (simp add: dec_nonempty Suc_le_eq)
      next
        case k': False
        with 1(1)[OF False, of k'] have "length (dec (m div 10)) \<le> k' \<longleftrightarrow> m div 10 < 10 ^ k'"
          by simp
        moreover have "m div 10 < 10 ^ k' \<longleftrightarrow> m < 10 ^ Suc k'"
          by (simp add: div_less_iff_less_mult mult.commute)
        ultimately show ?thesis using False Suc by (subst dec.simps) simp
      qed
    qed
  qed
qed

lemma py_str_cases:
  "py_str n = (if \<bar>n\<bar> < 10 ^ max_str_digits then Inr (decimal_text n)
               else Inl (ValueError ExceedsLimitToStr))"
proof -
  have "0 < max_str_digits" by (simp add: max_str_digits_def)
  from length_dec_le[OF this, of "nat \<bar>n\<bar>"]
  have "length (dec (nat \<bar>n\<bar>)) \<le> max_str_digits \<longleftrightarrow> nat \<bar>n\<bar> < 10 ^ max_str_digits" .
  also have "\<dots> \<longleftrightarrow> \<bar>n\<bar> < 10 ^ max_str_digits"
    by (metis nat_less_iff abs_ge_zero of_nat_numeral of_nat_power)
  finally show ?thesis by (auto simp: py_str_def)
qed

subsection \<open>Integer literals with blanks and a sign\<close>

lemma digits_tail_stop:
  "\<not> is_ascii_digit c \<Longrightarrow> c \<noteq> 95 \<Longrightarrow> digits_tail acc k (c # cs) = Some (acc, k, c # cs)"
  by (cases cs) simp_all

lemma space_not_digit: "is_c_space c \<Longrightarrow> \<not> is_ascii_digit c \<and> c \<noteq> 95 \<and> c \<noteq> 43 \<and> c \<noteq> 45"
  by (auto simp: is_c_space_def is_ascii_digit_def)


lemma ascii_number_foldl: "foldl (\<lambda>a c. 10 * a + (int c - 48)) 0 ds = ascii_number ds"
  by (simp add: foldl_horner ascii_number_def)





subsection \<open>What a command leaves unchanged\<close>




section \<open>The set command\<close>

lemma compute_Absolute: "compute (Absolute n) w = (Inr n, w)"
  by (simp add: return_io_def)

text \<open>
  Claim C5. \<open>compute (Absolute n)\<close> returns \<open>n\<close> for every integer \<open>n\<close> and every
  state of the device, and leaves the state as it is: no file is opened. The same holds
  for the command itself on a value made of ASCII digits only: with at most 4300 digits
  \<open>set\<close> does nothing but write the number, and the only file it opens is
  \<open>brightness\<close>, for writing; with more digits it raises the \<open>ValueError\<close> of \<open>int\<close>
  and opens no file at all.
\<close>

theorem absolute_needs_no_read:
  "compute (Absolute n) w = (Inr n, w) \<and>
   (ds \<noteq> [] \<and> list_all is_ascii_digit ds \<longrightarrow>
      (length ds \<le> max_str_digits \<longrightarrow>
         set_current_brightness ds w = write_brightness (ascii_number ds) w \<and>
         opened (snd (set_current_brightness ds w)) = opened w @ [OpenWrite Brightness]) \<and>
      (max_str_digits < length ds \<longrightarrow>
         set_current_brightness ds w =
           (Inl (ValueError (ExceedsLimitToInt (length ds))), w)))"
proof -
  have "set_current_brightness ds w = write_brightness (ascii_number ds) w"
    if ds: "ds \<noteq> []" "list_all is_ascii_digit ds" "length ds \<le> max_str_digits"
  proof -
    from ds(2) have d: "list_all is_decimal ds" by (simp add: list_all_iff)
    from parse_groups[OF ds(1) d, of None None] ds(3)
    have "parse ds = Inr (Absolute (ascii_number ds))"
      by (simp add: opt_str_def base10_ascii[OF ds(2)])
    from set_current_brightness_factors[OF this] show ?thesis
      by (simp add: compute_Absolute bind_io_def)
  qed
  moreover have "opened (snd (write_brightness k w)) = opened w @ [OpenWrite Brightness]" for k
    by (simp add: write_brightness_def record_open_def split: sum.splits)
  moreover have "set_current_brightness ds w =
           (Inl (ValueError (ExceedsLimitToInt (length ds))), w)"
    if ds: "ds \<noteq> []" "list_all is_ascii_digit ds" "max_str_digits < length ds"
  proof -
    from ds(2) have d: "list_all is_decimal ds" by (simp add: list_all_iff)
    from set_current_brightness_too_long[OF ds(1) d ds(3)] show ?thesis .
  qed
  ultimately show ?thesis by (simp add: return_io_def)
qed

theorem absolute_needs_no_read_witness:
  "compute (Absolute (- 5)) (device (ustr ''junk'') []) = (Inr (- 5), device (ustr ''junk'') []) \<and>
   ustr ''500'' \<noteq> [] \<and> list_all is_ascii_digit (ustr ''500'') \<and>
   length (ustr ''500'') \<le> max_str_digits \<and>
   set_current_brightness (ustr ''500'')
     ((device (ustr ''junk'') [])\<lparr>can_read_brightness := False, can_read_max_brightness := False\<rparr>) =
   (Inr (), (device (ustr ''500'' @ [10]) [])
      \<lparr>can_read_brightness := False, can_read_max_brightness := False,
       opened := [OpenWrite Brightness]\<rparr>)"
  using absolute_needs_no_read[of "- 5" "device (ustr ''junk'') []" "[]"]
    absolute_needs_no_read[of 0 "(device (ustr ''junk'') [])\<lparr>can_read_brightness := False, can_read_max_brightness := False\<rparr>" "ustr ''500''"]
  by (simp add: ustr_def is_ascii_digit_def ascii_number_def device_def write_brightness_def
      record_open_def py_str_def decimal_text_def dec.simps max_str_digits_def)


lemmas float_eval = round_quot_def int_true_divide_def round_double_def ulp_exponent_def
  quot_exponent_def ge_pow2_def bit_length.simps scaled_rhe_def div_rhe_def py_round_def
  bind_res_def

lemmas int_eval = py_int_def long_from_string_def long_digits_def skip_sign_def is_negative_def
  ascii_of_def is_c_space_def is_ascii_digit_def max_str_digits_def


lemma parse_examples:
  "parse (ustr ''-10'') = Inr (Relative Minus 10)"
  "parse (ustr ''150%'') = Inr (AbsolutePercent 150)"
  "parse (ustr ''+5'') = Inr (Relative Plus 5)"
  "parse (ustr ''70%'') = Inr (AbsolutePercent 70)"
  "parse (ustr ''+10%'') = Inr (RelativePercent Plus 10)"
proof -
  have d: "list_all is_decimal [49, 48]" "list_all is_decimal [49, 53, 48]"
    "list_all is_decimal [53]" "list_all is_decimal [55, 48]"
    by (simp_all add: is_ascii_digit_def)
  have b: "base10 [49, 48] = 10" "base10 [49, 53, 48] = 150" "base10 [53] = 5"
    "base10 [55, 48] = 70"
    by (simp_all add: base10_def decimal_value_ascii is_ascii_digit_def)
  show "parse (ustr ''-10'') = Inr (Relative Minus 10)"
    using parse_groups[of "[49, 48]" "Some 45" None] d b
    by (simp add: ustr_def opt_str_def sign_of_def max_str_digits_def)
  show "parse (ustr ''150%'') = Inr (AbsolutePercent 150)"
    using parse_groups[of "[49, 53, 48]" None "Some 37"] d b
    by (simp add: ustr_def opt_str_def sign_of_def max_str_digits_def)
  show "parse (ustr ''+5'') = Inr (Relative Plus 5)"
    using parse_groups[of "[53]" "Some 43" None] d b
    by (simp add: ustr_def opt_str_def sign_of_def max_str_digits_def)
  show "parse (ustr ''70%'') = Inr (AbsolutePercent 70)"
    using parse_groups[of "[55, 48]" None "Some 37"] d b
    by (simp add: ustr_def opt_str_def sign_of_def max_str_digits_def)
  show "parse (ustr ''+10%'') = Inr (RelativePercent Plus 10)"
    using parse_groups[of "[49, 48]" "Some 43" "Some 37"] d b
    by (simp add: ustr_def opt_str_def sign_of_def max_str_digits_def)
qed

lemma py_int_examples:
  "py_int (ustr ''5'' @ [10]) = Inr 5"
  "py_int (ustr ''1000'' @ [10]) = Inr 1000"
  "py_int (ustr ''650'' @ [10]) = Inr 650"
  "py_int (ustr ''500'' @ [10]) = Inr 500"
  by (simp_all add: int_eval ustr_def)








lemma py_int_error:
  assumes "py_int s = Inl e"
  shows "\<exists>m. e = ValueError m \<and>
           (m = InvalidLiteral s \<longleftrightarrow> long_from_string (map ascii_of s) = Malformed) \<and>
           (m = InvalidLiteral s \<or> (\<exists>k. max_str_digits < k \<and> m = ExceedsLimitToInt k))"
proof (cases "long_from_string (map ascii_of s)")
  case Malformed
  with assms show ?thesis by (simp add: py_int_def)
next
  case (TooLong k)
  then have "max_str_digits < k"
    by (auto simp: long_from_string_def split: option.splits if_splits)
  with assms TooLong show ?thesis by (auto simp: py_int_def)
next
  case (Number v)
  with assms show ?thesis by (simp add: py_int_def)
qed

lemma read_brightness_bad:
  "can_read_brightness w \<Longrightarrow> py_int (brightness w) = Inl e \<Longrightarrow>
   read_brightness w = (Inl e, record_open (OpenRead Brightness) w)"
  by (simp add: read_brightness_def)

lemma read_max_brightness_bad:
  "can_read_max_brightness w \<Longrightarrow> py_int (max_brightness w) = Inl e \<Longrightarrow>
   read_max_brightness w = (Inl e, record_open (OpenRead MaxBrightness) w)"
  by (simp add: read_max_brightness_def)

lemma read_brightness_good:
  "can_read_brightness w \<Longrightarrow> py_int (brightness w) = Inr c \<Longrightarrow>
   read_brightness w = (Inr c, record_open (OpenRead Brightness) w)"
  by (simp add: read_brightness_def)

lemma read_max_brightness_good:
  "can_read_max_brightness w \<Longrightarrow> py_int (max_brightness w) = Inr m \<Longrightarrow>
   read_max_brightness w = (Inr m, record_open (OpenRead MaxBrightness) w)"
  by (simp add: read_max_brightness_def)

lemma record_open_fields [simp]:
  "brightness (record_open ev w) = brightness w"
  "max_brightness (record_open ev w) = max_brightness w"
  "can_read_brightness (record_open ev w) = can_read_brightness w"
  "can_read_max_brightness (record_open ev w) = can_read_max_brightness w"
  "can_write_brightness (record_open ev w) = can_write_brightness w"
  "stdout (record_open ev w) = stdout w"
  "opened (record_open ev w) = opened w @ [ev]"
  by (simp_all add: record_open_def)

lemma main_Set_ValueError:
  "set_current_brightness v w = (Inl (ValueError m), w') \<Longrightarrow> main (Set v) w = (DocoptExit m, w')"
  by (simp add: main_def)

lemma main_Show_ValueError:
  "print_current_brightness w = (Inl (ValueError m), w') \<Longrightarrow> main Show w = (DocoptExit m, w')"
  by (simp add: main_def)

text \<open>
  Claim C10. When \<open>int\<close> rejects the contents \<open>s\<close> of a device file, the error is a
  \<open>ValueError\<close>, and \<open>main\<close> ends with \<open>DocoptExit\<close> as it does for a malformed
  expression, with the same exit status 1: in \<open>show\<close> for either file, and in \<open>set\<close>
  for each file an option reads. Nothing is written. The message of the \<open>ValueError\<close>
  is what \<open>DocoptExit\<close> shows before the usage text: the invalid literal \<open>s\<close> when
  \<open>s\<close> is not an integer literal, and the number of digits when there are more than
  4300 of them.
\<close>

theorem device_value_error_is_usage_error:
  assumes "py_int s = Inl e"
  shows "\<exists>m. e = ValueError m \<and>
    (m = InvalidLiteral s \<longleftrightarrow> long_from_string (map ascii_of s) = Malformed) \<and>
    (m = InvalidLiteral s \<or> (\<exists>k. max_str_digits < k \<and> m = ExceedsLimitToInt k)) \<and>
    (can_read_max_brightness w \<and> max_brightness w = s \<longrightarrow>
       main Show w = (DocoptExit m, record_open (OpenRead MaxBrightness) w)) \<and>
    (can_read_max_brightness w \<and> py_int (max_brightness w) = Inr mx \<and>
     can_read_brightness w \<and> brightness w = s \<longrightarrow>
       main Show w = (DocoptExit m,
         record_open (OpenRead Brightness) (record_open (OpenRead MaxBrightness) w))) \<and>
    (parse v = Inr (Relative sg n) \<and> can_read_brightness w \<and> brightness w = s \<longrightarrow>
       main (Set v) w = (DocoptExit m, record_open (OpenRead Brightness) w)) \<and>
    (parse v = Inr (RelativePercent sg n) \<and> can_read_brightness w \<and> brightness w = s \<longrightarrow>
       main (Set v) w = (DocoptExit m, record_open (OpenRead Brightness) w)) \<and>
    (parse v = Inr (AbsolutePercent n) \<and> can_read_max_brightness w \<and> max_brightness w = s \<longrightarrow>
       main (Set v) w = (DocoptExit m, record_open (OpenRead MaxBrightness) w)) \<and>
    (parse v = Inr (RelativePercent sg n) \<and> can_read_brightness w \<and>
     py_int (brightness w) = Inr c \<and> can_read_max_brightness w \<and> max_brightness w = s \<longrightarrow>
       main (Set v) w = (DocoptExit m,
         record_open (OpenRead MaxBrightness) (record_open (OpenRead Brightness) w))) \<and>
    exit_status (DocoptExit m) = exit_status (DocoptExit NoMessage) \<and>
    exit_status (DocoptExit m) = 1"
proof -
  from py_int_error[OF assms] obtain m where e: "e = ValueError m"
    and m1: "m = InvalidLiteral s \<longleftrightarrow> long_from_string (map ascii_of s) = Malformed"
    and m2: "m = InvalidLiteral s \<or> (\<exists>k. max_str_digits < k \<and> m = ExceedsLimitToInt k)"
    by blast
  note bad = assms[unfolded e]
  have a: "main Show w = (DocoptExit m, record_open (OpenRead MaxBrightness) w)"
    if "can_read_max_brightness w" "max_brightness w = s"
    using that bad read_max_brightness_bad[of w "ValueError m"]
    by (intro main_Show_ValueError) (simp add: print_current_brightness_def bind_io_def)
  have b: "main Show w = (DocoptExit m,
         record_open (OpenRead Brightness) (record_open (OpenRead MaxBrightness) w))"
    if "can_read_max_brightness w" "py_int (max_brightness w) = Inr mx"
      "can_read_brightness w" "brightness w = s"
    using that bad read_max_brightness_good[of w mx]
      read_brightness_bad[of "record_open (OpenRead MaxBrightness) w" "ValueError m"]
    by (intro main_Show_ValueError) (simp add: print_current_brightness_def bind_io_def)
  have c: "main (Set v) w = (DocoptExit m, record_open (OpenRead Brightness) w)"
    if "parse v = Inr (Relative sg n)" "can_read_brightness w" "brightness w = s"
    using that(2,3) bad read_brightness_bad[of w "ValueError m"]
    by (intro main_Set_ValueError)
      (simp add: set_current_brightness_factors[OF that(1)] bind_io_def)
  have d: "main (Set v) w = (DocoptExit m, record_open (OpenRead Brightness) w)"
    if "parse v = Inr (RelativePercent sg n)" "can_read_brightness w" "brightness w = s"
    using that(2,3) bad read_brightness_bad[of w "ValueError m"]
    by (intro main_Set_ValueError)
      (simp add: set_current_brightness_factors[OF that(1)] bind_io_def)
  have f: "main (Set v) w = (DocoptExit m, record_open (OpenRead MaxBrightness) w)"
    if "parse v = Inr (AbsolutePercent n)" "can_read_max_brightness w" "max_brightness w = s"
    using that(2,3) bad read_max_brightness_bad[of w "ValueError m"]
    by (intro main_Set_ValueError)
      (simp add: set_current_brightness_factors[OF that(1)] bind_io_def)
  have g: "main (Set v) w = (DocoptExit m,
         record_open (OpenRead MaxBrightness) (record_open (OpenRead Brightness) w))"
    if "parse v = Inr (RelativePercent sg n)" "can_read_brightness w"
      "py_int (brightness w) = Inr c" "can_read_max_brightness w" "max_brightness w = s"
    using that(2-5) bad read_brightness_good[of w c]
      read_max_brightness_bad[of "record_open (OpenRead Brightness) w" "ValueError m"]
    by (intro main_Set_ValueError)
      (simp add: set_current_brightness_factors[OF that(1)] bind_io_def)
  have h: "exit_status (DocoptExit m) = exit_status (DocoptExit NoMessage)"
    "exit_status (DocoptExit m) = 1"
    by (simp_all add: exit_status_def)
  show ?thesis using e m1 m2 a b c d f g h by (intro exI[of _ m]) blast
qed

theorem device_value_error_is_usage_error_witness:
  "py_int (ustr ''abc'') = Inl (ValueError (InvalidLiteral (ustr ''abc''))) \<and>
   main Show (device (ustr ''650'' @ [10]) (ustr ''abc'')) =
     (DocoptExit (InvalidLiteral (ustr ''abc'')),
      record_open (OpenRead MaxBrightness) (device (ustr ''650'' @ [10]) (ustr ''abc''))) \<and>
   main (Set (ustr ''70%'')) (device (ustr ''650'' @ [10]) (ustr ''abc'')) =
     (DocoptExit (InvalidLiteral (ustr ''abc'')),
      record_open (OpenRead MaxBrightness) (device (ustr ''650'' @ [10]) (ustr ''abc''))) \<and>
   main Show (device (ustr ''abc'') (ustr ''1000'' @ [10])) =
     (DocoptExit (InvalidLiteral (ustr ''abc'')),
      record_open (OpenRead Brightness)
        (record_open (OpenRead MaxBrightness) (device (ustr ''abc'') (ustr ''1000'' @ [10])))) \<and>
   main (Set (ustr ''+5'')) (device (ustr ''abc'') (ustr ''1000'' @ [10])) =
     (DocoptExit (InvalidLiteral (ustr ''abc'')),
      record_open (OpenRead Brightness) (device (ustr ''abc'') (ustr ''1000'' @ [10]))) \<and>
   exit_status (DocoptExit (InvalidLiteral (ustr ''abc''))) = exit_status (DocoptExit NoMessage)"
proof -
  let ?w1 = "device (ustr ''650'' @ [10]) (ustr ''abc'')"
  let ?w2 = "device (ustr ''abc'') (ustr ''1000'' @ [10])"
  have bad: "py_int (ustr ''abc'') = Inl (ValueError (InvalidLiteral (ustr ''abc'')))"
    by (simp add: int_eval ustr_def)
  have m: "py_int (max_brightness ?w2) = Inr 1000"
    using py_int_examples(2) by (simp add: device_def)
  have r: "can_read_max_brightness ?w1" "max_brightness ?w1 = ustr ''abc''"
    "can_read_max_brightness ?w2" "can_read_brightness ?w2" "brightness ?w2 = ustr ''abc''"
    by (simp_all add: device_def)
  have 1: "main Show ?w1 =
      (DocoptExit (InvalidLiteral (ustr ''abc'')), record_open (OpenRead MaxBrightness) ?w1) \<and>
    main (Set (ustr ''70%'')) ?w1 =
      (DocoptExit (InvalidLiteral (ustr ''abc'')), record_open (OpenRead MaxBrightness) ?w1) \<and>
    exit_status (DocoptExit (InvalidLiteral (ustr ''abc''))) = exit_status (DocoptExit NoMessage)"
    using device_value_error_is_usage_error[OF bad, of ?w1 0 "ustr ''70%''" Plus 70 0]
      r(1,2) parse_examples(4)
    by simp
  have 2: "main Show ?w2 =
      (DocoptExit (InvalidLiteral (ustr ''abc'')),
       record_open (OpenRead Brightness) (record_open (OpenRead MaxBrightness) ?w2)) \<and>
    main (Set (ustr ''+5'')) ?w2 =
      (DocoptExit (InvalidLiteral (ustr ''abc'')), record_open (OpenRead Brightness) ?w2)"
    using device_value_error_is_usage_error[OF bad, of ?w2 1000 "ustr ''+5''" Plus 5 0]
      r(3,4,5) m parse_examples(3)
    by simp
  show ?thesis using bad 1 2 by blast
qed



section \<open>The device readers\<close>

lemma ascii_of_high:
  assumes "127 \<le> c"
  shows "ascii_of c = 32 \<and> is_unicode_space c \<and> \<not> is_decimal c \<or>
         ascii_of c = 63 \<and> \<not> is_unicode_space c \<and> \<not> is_decimal c \<or>
         is_ascii_digit (ascii_of c) \<and> \<not> is_unicode_space c \<and> is_decimal c"
proof (cases "is_unicode_space c")
  case True
  with assms spaces_not_decimal have "todecimal c = None" by (auto simp: is_unicode_space_def)
  with True assms show ?thesis by (simp add: ascii_of_def is_decimal_def)
next
  case False
  show ?thesis
  proof (cases "todecimal c")
    case None
    with False assms show ?thesis by (simp add: ascii_of_def is_decimal_def)
  next
    case (Some d)
    from todecimal_SomeD[OF Some] have "d < 10" by simp
    with Some False assms show ?thesis
      by (simp add: ascii_of_def is_decimal_def is_ascii_digit_def)
  qed
qed

lemma is_decimal_low: "c < 127 \<Longrightarrow> is_decimal c = is_ascii_digit c"
  using todecimal_low[of c] by (simp add: is_decimal_def)

lemma c_space_low: "is_c_space c \<Longrightarrow> c < 127"
  by (auto simp: is_c_space_def)

lemma c_space_ascii_of: "is_c_space (ascii_of c) \<longleftrightarrow> is_blank c"
proof (cases "c < 127")
  case True
  then show ?thesis by (simp add: ascii_of_def is_blank_def)
next
  case False
  then have h: "127 \<le> c" by simp
  have "\<not> is_c_space 63" "is_c_space 32" by (simp_all add: is_c_space_def)
  with ascii_of_high[OF h] ascii_digit_not_space[of "ascii_of c"] c_space_low[of c] h
  show ?thesis by (auto simp: is_blank_def)
qed

lemma digit_ascii_of: "is_ascii_digit (ascii_of c) \<longleftrightarrow> is_decimal c"
proof (cases "c < 127")
  case True
  then show ?thesis by (simp add: ascii_of_def is_decimal_low)
next
  case False
  then have h: "127 \<le> c" by simp
  have "\<not> is_ascii_digit 63" "\<not> is_ascii_digit 32" by (simp_all add: is_ascii_digit_def)
  with ascii_of_high[OF h] show ?thesis by auto
qed

lemma ascii_of_special:
  assumes "k = 43 \<or> k = 45 \<or> k = 95"
  shows "ascii_of c = k \<longleftrightarrow> c = k"
proof (cases "c < 127")
  case True
  then show ?thesis by (simp add: ascii_of_def)
next
  case False
  then have h: "127 \<le> c" by simp
  from ascii_of_high[OF h] assms h show ?thesis by (auto simp: is_ascii_digit_def)
qed

lemma map_ascii_of_blanks: "list_all is_blank ws \<Longrightarrow> list_all is_c_space (map ascii_of ws)"
  by (induction ws) (simp_all add: c_space_ascii_of)

lemma map_ascii_of_decimals: "list_all is_decimal ds \<Longrightarrow> list_all is_ascii_digit (map ascii_of ds)"
  by (induction ds) (simp_all add: digit_ascii_of)

lemma ascii_number_map_ascii_of:
  assumes "list_all is_decimal ds"
  shows "ascii_number (map ascii_of ds) = base10 ds"
  using foldl_map_ascii[OF assms, of 0]
  by (simp add: foldl_horner ascii_number_def base10_def)

lemma digits_tail_underscore:
  "is_ascii_digit d \<Longrightarrow>
   digits_tail acc k (95 # d # cs) = digits_tail (10 * acc + (int d - 48)) (Suc k) cs"
  by (simp add: is_ascii_digit_def)

lemma literal_tail_digit: "dg c \<Longrightarrow> literal_tail dg (c # cs) = literal_tail dg cs"
  by (cases cs) simp_all

lemma literal_tail_underscore:
  "\<not> dg 95 \<Longrightarrow> literal_tail dg (95 # d # cs) = (dg d \<and> literal_tail dg cs)"
  by simp

lemma ascii_digit_not_underscore: "is_ascii_digit c \<Longrightarrow> c \<noteq> 95"
  by (auto simp: is_ascii_digit_def)

lemma decimal_not_underscore: "is_decimal c \<Longrightarrow> c \<noteq> 95"
  using is_decimal_low[of 95] by (auto simp: is_ascii_digit_def)

lemma digits_tail_literal:
  assumes "literal_tail is_ascii_digit bs"
    and "rest = [] \<or> \<not> is_ascii_digit (hd rest) \<and> hd rest \<noteq> 95"
  shows "digits_tail acc k (bs @ rest) =
    Some (foldl (\<lambda>a c. 10 * a + (int c - 48)) acc (body_digits bs),
          k + length (body_digits bs), rest)"
  using assms(1)
proof (induction bs arbitrary: acc k rule: length_induct)
  case (1 bs)
  show ?case
  proof (cases bs)
    case Nil
    show ?thesis
    proof (cases rest)
      case Nil
      with \<open>bs = []\<close> show ?thesis by (simp add: body_digits_def)
    next
      case (Cons r rs)
      with assms(2) have "\<not> is_ascii_digit r" "r \<noteq> 95" by simp_all
      with Cons \<open>bs = []\<close> show ?thesis by (simp add: digits_tail_stop body_digits_def)
    qed
  next
    case (Cons c cs)
    show ?thesis
    proof (cases "is_ascii_digit c")
      case True
      with 1(2) Cons have l: "literal_tail is_ascii_digit cs" by (simp add: literal_tail_digit)
      from 1(1) Cons l have "digits_tail (10 * acc + (int c - 48)) (Suc k) (cs @ rest) =
          Some (foldl (\<lambda>a c. 10 * a + (int c - 48)) (10 * acc + (int c - 48)) (body_digits cs),
                Suc k + length (body_digits cs), rest)"
        by simp
      with True Cons show ?thesis
        by (simp add: digits_tail_digit body_digits_def ascii_digit_not_underscore)
    next
      case False
      with 1(2) Cons obtain d ds where cs: "cs = d # ds" and c: "c = 95"
        and d: "is_ascii_digit d" and l: "literal_tail is_ascii_digit ds"
        by (cases cs) (auto split: if_splits)
      from 1(1) Cons cs l have "digits_tail (10 * acc + (int d - 48)) (Suc k) (ds @ rest) =
          Some (foldl (\<lambda>a c. 10 * a + (int c - 48)) (10 * acc + (int d - 48)) (body_digits ds),
                Suc k + length (body_digits ds), rest)"
        by simp
      with Cons cs c d False show ?thesis
        by (simp add: body_digits_def ascii_digit_not_underscore)
    qed
  qed
qed

lemma digits_tail_SomeD:
  "digits_tail acc k cs = Some (v, k', rest) \<Longrightarrow>
   \<exists>bs. cs = bs @ rest \<and> literal_tail is_ascii_digit bs \<and> k' = k + length (body_digits bs)"
proof (induction acc k cs arbitrary: v k' rest rule: digits_tail.induct)
  case (1 acc k)
  then show ?case by (simp add: body_digits_def)
next
  case (2 acc k c)
  show ?case
  proof (cases "is_ascii_digit c")
    case True
    with 2 have "rest = []" "k' = Suc k" by simp_all
    with True show ?thesis
      by (intro exI[of _ "[c]"]) (simp add: body_digits_def ascii_digit_not_underscore)
  next
    case False
    with 2 have "rest = [c]" "k' = k" by (auto split: if_splits)
    then show ?thesis by (intro exI[of _ "[]"]) (simp add: body_digits_def)
  qed
next
  case (3 acc k c d cs)
  show ?case
  proof (cases "is_ascii_digit c")
    case True
    with 3(3) have "digits_tail (10 * acc + (int c - 48)) (Suc k) (d # cs) = Some (v, k', rest)"
      by simp
    from 3(1)[OF True this] obtain bs where
      b: "d # cs = bs @ rest" "literal_tail is_ascii_digit bs"
         "k' = Suc k + length (body_digits bs)" by blast
    with True show ?thesis
      by (intro exI[of _ "c # bs"])
        (simp add: literal_tail_digit body_digits_def ascii_digit_not_underscore)
  next
    case False
    show ?thesis
    proof (cases "c = 95")
      case c: True
      with False 3(3) have d: "is_ascii_digit d"
        and t: "digits_tail (10 * acc + (int d - 48)) (Suc k) cs = Some (v, k', rest)"
        by (auto split: if_splits)
      from 3(2)[OF False c d t] obtain bs where
        b: "cs = bs @ rest" "literal_tail is_ascii_digit bs"
           "k' = Suc k + length (body_digits bs)" by blast
      with c d False show ?thesis
        by (intro exI[of _ "c # d # bs"])
          (simp add: body_digits_def ascii_digit_not_underscore)
    next
      case c: False
      with False 3(3) have "rest = c # d # cs" "k' = k" by simp_all
      then show ?thesis by (intro exI[of _ "[]"]) (simp add: body_digits_def)
    qed
  qed
qed

lemma skip_sign_after_sign: "skip_sign t = after_sign t"
  by (cases t) (auto simp: skip_sign_def after_sign_def opt_sign_def)

lemma long_from_string_body:
  assumes ws: "list_all is_c_space ws1" "list_all is_c_space ws2"
    and body: "literal_body is_ascii_digit body"
    and g0: "g0 \<in> {None, Some 43, Some 45}"
  shows "long_from_string (ws1 @ opt_str g0 @ body @ ws2) =
    (if max_str_digits < length (body_digits body) then TooLong (length (body_digits body))
     else Number (if g0 = Some 45 then - ascii_number (body_digits body)
                  else ascii_number (body_digits body)))"
proof -
  from body obtain c cs where dcs: "body = c # cs" and c: "is_ascii_digit c"
    and cs: "literal_tail is_ascii_digit cs"
    by (auto simp: literal_body_def split: list.splits)
  from c have ns: "\<not> is_c_space c" "c \<noteq> 43" "c \<noteq> 45" "c \<noteq> 95"
    by (auto simp: is_ascii_digit_def is_c_space_def)
  have nsp: "\<not> is_c_space 43" "\<not> is_c_space 45" by (simp_all add: is_c_space_def)
  from ws(1) have all: "\<And>x. x \<in> set ws1 \<Longrightarrow> is_c_space x" by (simp add: list_all_iff)
  have d: "dropWhile is_c_space (ws1 @ opt_str g0 @ body @ ws2) = opt_str g0 @ body @ ws2"
    using g0 ns nsp by (auto simp: dropWhile_append2[OF all] opt_str_def dcs)
  have sk: "skip_sign (opt_str g0 @ body @ ws2) = body @ ws2"
    using g0 ns by (auto simp: skip_sign_def opt_str_def dcs)
  have ng: "is_negative (opt_str g0 @ body @ ws2) = (g0 = Some 45)"
    using g0 ns by (auto simp: is_negative_def opt_str_def dcs)
  have stop: "ws2 = [] \<or> \<not> is_ascii_digit (hd ws2) \<and> hd ws2 \<noteq> 95"
    using ws(2) space_not_digit[of "hd ws2"] by (cases ws2) auto
  have bd: "body_digits (c # cs) = c # body_digits cs" using ns(4) by (simp add: body_digits_def)
  have ld: "long_digits (body @ ws2) =
      Some (foldl (\<lambda>a c. 10 * a + (int c - 48)) 0 (body_digits body),
            length (body_digits body), ws2)"
    using c digits_tail_literal[OF cs stop, of "int c - 48" 1]
    by (simp add: long_digits_def dcs bd)
  show ?thesis
    unfolding long_from_string_def d sk ng ld using ws(2)
    by (simp add: ascii_number_foldl)
qed

lemma long_from_string_NumberD:
  assumes "long_from_string t = Number n"
  shows "\<exists>ws1 g0 body ws2. t = ws1 @ opt_str g0 @ body @ ws2 \<and>
      list_all is_c_space ws1 \<and> list_all is_c_space ws2 \<and> g0 \<in> {None, Some 43, Some 45} \<and>
      literal_body is_ascii_digit body \<and> length (body_digits body) \<le> max_str_digits"
proof -
  let ?t1 = "dropWhile is_c_space t"
  let ?t2 = "skip_sign ?t1"
  from assms obtain v k rest where ld: "long_digits ?t2 = Some (v, k, rest)"
    and sp: "list_all is_c_space rest" and k: "k \<le> max_str_digits"
    by (auto simp: long_from_string_def split: option.splits if_splits)
  from ld obtain c cs where t2: "?t2 = c # cs" and c: "is_ascii_digit c"
    and dt: "digits_tail (int c - 48) 1 cs = Some (v, k, rest)"
    by (auto simp: long_digits_def split: list.splits if_splits)
  from digits_tail_SomeD[OF dt] obtain bs where
    b: "cs = bs @ rest" "literal_tail is_ascii_digit bs" "k = 1 + length (body_digits bs)"
    by blast
  have "t = takeWhile is_c_space t @ ?t1" by simp
  also have "?t1 = opt_str (opt_sign ?t1) @ ?t2"
    by (simp add: skip_sign_after_sign opt_sign_after_sign)
  finally have "t = takeWhile is_c_space t @ opt_str (opt_sign ?t1) @ (c # bs) @ rest"
    using t2 b(1) by simp
  moreover have "list_all is_c_space (takeWhile is_c_space t)"
    unfolding list_all_iff by (auto dest: set_takeWhileD)
  moreover have "literal_body is_ascii_digit (c # bs)" using c b(2) by (simp add: literal_body_def)
  moreover have "length (body_digits (c # bs)) \<le> max_str_digits"
    using k b(3) c by (simp add: body_digits_def ascii_digit_not_underscore)
  ultimately show ?thesis
    using sp opt_sign_range[of ?t1]
    by (intro exI[of _ "takeWhile is_c_space t"] exI[of _ "opt_sign ?t1"]
        exI[of _ "c # bs"] exI[of _ rest]) simp
qed

lemma map_ascii_of_opt_str:
  assumes "map ascii_of s = opt_str g0" "g0 \<in> {None, Some 43, Some 45}"
  shows "s = opt_str g0"
proof (cases g0)
  case None
  with assms show ?thesis by (simp add: opt_str_def)
next
  case (Some k)
  with assms(2) have k: "k = 43 \<or> k = 45 \<or> k = 95" by auto
  from assms(1) Some obtain c where "s = [c]" "ascii_of c = k"
    by (auto simp: opt_str_def)
  with ascii_of_special[OF k, of c] Some show ?thesis by (simp add: opt_str_def)
qed

lemma map_eq_appendD:
  "map f s = a @ b \<Longrightarrow> \<exists>s1 s2. s = s1 @ s2 \<and> map f s1 = a \<and> map f s2 = b"
  by (metis append_eq_map_conv)

lemma literal_tail_map_ascii_of:
  "literal_tail is_ascii_digit (map ascii_of xs) = literal_tail is_decimal xs"
proof (induction xs rule: length_induct)
  case (1 xs)
  show ?case
  proof (cases xs)
    case Nil
    then show ?thesis by simp
  next
    case (Cons c cs)
    show ?thesis
    proof (cases "is_decimal c")
      case True
      with 1 Cons show ?thesis by (simp add: literal_tail_digit digit_ascii_of)
    next
      case False
      show ?thesis
      proof (cases cs)
        case Nil
        with False Cons show ?thesis by (simp add: digit_ascii_of)
      next
        case (Cons d ds)
        with 1 \<open>xs = c # cs\<close> have "literal_tail is_ascii_digit (map ascii_of ds) =
            literal_tail is_decimal ds" by simp
        with False Cons \<open>xs = c # cs\<close> show ?thesis
          by (simp add: digit_ascii_of ascii_of_special)
      qed
    qed
  qed
qed

lemma literal_body_map_ascii_of:
  "literal_body is_ascii_digit (map ascii_of xs) = literal_body is_decimal xs"
  by (cases xs) (simp_all add: literal_body_def digit_ascii_of literal_tail_map_ascii_of)

lemma body_digits_map_ascii_of: "body_digits (map ascii_of xs) = map ascii_of (body_digits xs)"
  by (induction xs) (simp_all add: body_digits_def ascii_of_special)

lemma literal_tail_digits: "literal_tail is_decimal xs \<Longrightarrow> list_all is_decimal (body_digits xs)"
proof (induction xs rule: length_induct)
  case (1 xs)
  show ?case
  proof (cases xs)
    case Nil
    then show ?thesis by (simp add: body_digits_def)
  next
    case (Cons c cs)
    show ?thesis
    proof (cases "is_decimal c")
      case True
      with 1 Cons have "list_all is_decimal (body_digits cs)" by (simp add: literal_tail_digit)
      with True Cons show ?thesis by (simp add: body_digits_def decimal_not_underscore)
    next
      case False
      with 1(2) Cons obtain d ds where cs: "cs = d # ds" and c: "c = 95"
        and d: "is_decimal d" and l: "literal_tail is_decimal ds"
        by (cases cs) (auto split: if_splits)
      from 1(1) Cons cs l have "list_all is_decimal (body_digits ds)" by simp
      with Cons cs c d show ?thesis by (simp add: body_digits_def decimal_not_underscore)
    qed
  qed
qed

lemma literal_body_digits: "literal_body is_decimal xs \<Longrightarrow> list_all is_decimal (body_digits xs)"
  using literal_tail_digits[of "tl xs"]
  by (cases xs) (simp_all add: literal_body_def body_digits_def decimal_not_underscore)

lemma digits_literal_body:
  assumes "ds \<noteq> []" "list_all is_decimal ds"
  shows "literal_body is_decimal ds \<and> body_digits ds = ds"
proof -
  have "list_all is_decimal xs \<Longrightarrow> literal_tail is_decimal xs" for xs
    by (induction xs) (simp_all add: literal_tail_digit)
  moreover have "body_digits ds = ds"
    using assms(2) by (auto simp: body_digits_def list_all_iff filter_id_conv decimal_not_underscore)
  ultimately show ?thesis using assms by (cases ds) (simp_all add: literal_body_def)
qed

lemma py_int_body:
  assumes ws: "list_all is_blank lead" "list_all is_blank trail"
    and body: "literal_body is_decimal body"
    and g0: "g0 \<in> {None, Some 43, Some 45}"
  shows "py_int (lead @ opt_str g0 @ body @ trail) =
    (if max_str_digits < length (body_digits body)
     then Inl (ValueError (ExceedsLimitToInt (length (body_digits body))))
     else Inr (if g0 = Some 45 then - base10 (body_digits body) else base10 (body_digits body)))"
proof -
  have s: "map ascii_of (opt_str g0) = opt_str g0"
    using g0 by (auto simp: opt_str_def ascii_of_def)
  have b: "literal_body is_ascii_digit (map ascii_of body)"
    using body by (simp add: literal_body_map_ascii_of)
  from long_from_string_body[OF map_ascii_of_blanks[OF ws(1)] map_ascii_of_blanks[OF ws(2)] b g0]
  show ?thesis
    by (simp add: py_int_def s body_digits_map_ascii_of
        ascii_number_map_ascii_of[OF literal_body_digits[OF body]])
qed

lemma py_int_InrD:
  assumes "py_int s = Inr n"
  shows "\<exists>lead g0 body trail. s = lead @ opt_str g0 @ body @ trail \<and>
      list_all is_blank lead \<and> list_all is_blank trail \<and> g0 \<in> {None, Some 43, Some 45} \<and>
      literal_body is_decimal body \<and> length (body_digits body) \<le> max_str_digits \<and>
      n = (if g0 = Some 45 then - base10 (body_digits body) else base10 (body_digits body))"
proof -
  from assms have "long_from_string (map ascii_of s) = Number n"
    by (auto simp: py_int_def split: scanned.splits)
  from long_from_string_NumberD[OF this] obtain ws1 g0 body ws2 where
    m: "map ascii_of s = ws1 @ opt_str g0 @ body @ ws2"
    and p: "list_all is_c_space ws1" "list_all is_c_space ws2" "g0 \<in> {None, Some 43, Some 45}"
      "literal_body is_ascii_digit body" "length (body_digits body) \<le> max_str_digits" by blast
  from map_eq_appendD[OF m] obtain s1 r1 where s1: "s = s1 @ r1" "map ascii_of s1 = ws1"
    "map ascii_of r1 = opt_str g0 @ body @ ws2" by blast
  from map_eq_appendD[OF s1(3)] obtain s2 r2 where s2: "r1 = s2 @ r2"
    "map ascii_of s2 = opt_str g0" "map ascii_of r2 = body @ ws2" by blast
  from map_eq_appendD[OF s2(3)] obtain s3 s4 where s3: "r2 = s3 @ s4" "map ascii_of s3 = body"
    "map ascii_of s4 = ws2" by blast
  have e: "s = s1 @ opt_str g0 @ s3 @ s4"
    using s1(1) s2(1) s3(1) map_ascii_of_opt_str[OF s2(2) p(3)] by simp
  have b1: "list_all is_blank s1" using p(1) s1(2)
    by (auto simp: list_all_iff c_space_ascii_of[symmetric])
  have b4: "list_all is_blank s4" using p(2) s3(3)
    by (auto simp: list_all_iff c_space_ascii_of[symmetric])
  have lb: "literal_body is_decimal s3"
    using p(4) unfolding s3(2)[symmetric] by (simp add: literal_body_map_ascii_of)
  have len: "length (body_digits s3) \<le> max_str_digits"
    using p(5) unfolding s3(2)[symmetric] by (simp add: body_digits_map_ascii_of)
  from py_int_body[OF b1 b4 lb p(3)] assms len
  have "n = (if g0 = Some 45 then - base10 (body_digits s3) else base10 (body_digits s3))"
    unfolding e by simp
  with e b1 b4 p(3) lb len show ?thesis by blast
qed

lemma py_int_literal:
  assumes ws: "list_all is_blank lead" "list_all is_blank trail"
    and ds: "ds \<noteq> []" "list_all is_decimal ds"
    and g0: "g0 \<in> {None, Some 43, Some 45}"
  shows "py_int (lead @ opt_str g0 @ ds @ trail) =
    (if max_str_digits < length ds then Inl (ValueError (ExceedsLimitToInt (length ds)))
     else Inr (if g0 = Some 45 then - base10 ds else base10 ds))"
  using py_int_body[OF ws _ g0, of ds] digits_literal_body[OF ds] by simp

text \<open>
  Claim C9, as the code has it. A reader returns \<open>int\<close> of the whole contents of its
  file. \<open>int\<close> accepts blanks, then an optional sign, then at most 4300 decimal digits,
  then blanks, and yields the digits read in base 10, negated after \<open>-\<close>: so \<open>650\<close>
  followed by a newline yields 650. The digits may be separated by single underscores
  and may be any Unicode decimal digits, and \<open>int\<close> accepts nothing else: contents such
  as \<open>12 34\<close>, \<open>abc\<close>, \<open>1__0\<close> or the empty string raise the \<open>ValueError\<close> of \<open>int\<close>, and
  so do contents with more than 4300 digits, as the counterexample below shows.
\<close>

theorem device_readers_parse_integers:
  "(can_read_brightness w \<longrightarrow> fst (read_brightness w) = py_int (brightness w)) \<and>
   (can_read_max_brightness w \<longrightarrow> fst (read_max_brightness w) = py_int (max_brightness w)) \<and>
   (list_all is_blank lead \<and> list_all is_blank trail \<and> ds \<noteq> [] \<and> list_all is_decimal ds \<longrightarrow>
      (length ds \<le> max_str_digits \<longrightarrow>
         py_int (lead @ ds @ trail) = Inr (base10 ds) \<and>
         py_int (lead @ 43 # ds @ trail) = Inr (base10 ds) \<and>
         py_int (lead @ 45 # ds @ trail) = Inr (- base10 ds)) \<and>
      (max_str_digits < length ds \<longrightarrow>
         py_int (lead @ ds @ trail) = Inl (ValueError (ExceedsLimitToInt (length ds))) \<and>
         py_int (lead @ 43 # ds @ trail) = Inl (ValueError (ExceedsLimitToInt (length ds))) \<and>
         py_int (lead @ 45 # ds @ trail) = Inl (ValueError (ExceedsLimitToInt (length ds))))) \<and>
   (list_all is_ascii_digit ds \<longrightarrow> base10 ds = ascii_number ds) \<and>
   (py_int s = Inr n \<longleftrightarrow>
      (\<exists>a g0 body b. s = a @ opt_str g0 @ body @ b \<and>
         list_all is_blank a \<and> list_all is_blank b \<and> g0 \<in> {None, Some 43, Some 45} \<and>
         literal_body is_decimal body \<and> length (body_digits body) \<le> max_str_digits \<and>
         n = (if g0 = Some 45 then - base10 (body_digits body)
              else base10 (body_digits body)))) \<and>
   (py_int s = Inl e \<longrightarrow>
      (\<exists>m. e = ValueError m \<and>
         (m = InvalidLiteral s \<or> (\<exists>k. max_str_digits < k \<and> m = ExceedsLimitToInt k))))"
proof -
  have a: "can_read_brightness w \<longrightarrow> fst (read_brightness w) = py_int (brightness w)"
    by (simp add: read_brightness_def)
  have b: "can_read_max_brightness w \<longrightarrow> fst (read_max_brightness w) = py_int (max_brightness w)"
    by (simp add: read_max_brightness_def)
  have c: "(length ds \<le> max_str_digits \<longrightarrow>
         py_int (lead @ ds @ trail) = Inr (base10 ds) \<and>
         py_int (lead @ 43 # ds @ trail) = Inr (base10 ds) \<and>
         py_int (lead @ 45 # ds @ trail) = Inr (- base10 ds)) \<and>
      (max_str_digits < length ds \<longrightarrow>
         py_int (lead @ ds @ trail) = Inl (ValueError (ExceedsLimitToInt (length ds))) \<and>
         py_int (lead @ 43 # ds @ trail) = Inl (ValueError (ExceedsLimitToInt (length ds))) \<and>
         py_int (lead @ 45 # ds @ trail) = Inl (ValueError (ExceedsLimitToInt (length ds))))"
    if h: "list_all is_blank lead" "list_all is_blank trail" "ds \<noteq> []" "list_all is_decimal ds"
    using py_int_literal[OF h, of None] py_int_literal[OF h, of "Some 43"]
      py_int_literal[OF h, of "Some 45"]
    by (simp add: opt_str_def)
  have d: "py_int s = Inr n \<longleftrightarrow>
      (\<exists>a g0 body b. s = a @ opt_str g0 @ body @ b \<and>
         list_all is_blank a \<and> list_all is_blank b \<and> g0 \<in> {None, Some 43, Some 45} \<and>
         literal_body is_decimal body \<and> length (body_digits body) \<le> max_str_digits \<and>
         n = (if g0 = Some 45 then - base10 (body_digits body)
              else base10 (body_digits body)))" (is "?L \<longleftrightarrow> ?R")
  proof
    assume ?L
    from py_int_InrD[OF this] show ?R .
  next
    assume ?R
    then obtain a g0 body b where r: "s = a @ opt_str g0 @ body @ b"
      "list_all is_blank a" "list_all is_blank b" "g0 \<in> {None, Some 43, Some 45}"
      "literal_body is_decimal body" "length (body_digits body) \<le> max_str_digits"
      "n = (if g0 = Some 45 then - base10 (body_digits body) else base10 (body_digits body))"
      by blast
    from py_int_body[OF r(2,3,5,4)] r(6,7) show ?L unfolding r(1) by simp
  qed
  have e: "py_int s = Inl e \<longrightarrow>
      (\<exists>m. e = ValueError m \<and>
         (m = InvalidLiteral s \<or> (\<exists>k. max_str_digits < k \<and> m = ExceedsLimitToInt k)))"
    using py_int_error[of s e] by blast
  from c have c': "list_all is_blank lead \<and> list_all is_blank trail \<and> ds \<noteq> [] \<and>
      list_all is_decimal ds \<longrightarrow>
      (length ds \<le> max_str_digits \<longrightarrow>
         py_int (lead @ ds @ trail) = Inr (base10 ds) \<and>
         py_int (lead @ 43 # ds @ trail) = Inr (base10 ds) \<and>
         py_int (lead @ 45 # ds @ trail) = Inr (- base10 ds)) \<and>
      (max_str_digits < length ds \<longrightarrow>
         py_int (lead @ ds @ trail) = Inl (ValueError (ExceedsLimitToInt (length ds))) \<and>
         py_int (lead @ 43 # ds @ trail) = Inl (ValueError (ExceedsLimitToInt (length ds))) \<and>
         py_int (lead @ 45 # ds @ trail) = Inl (ValueError (ExceedsLimitToInt (length ds))))"
    by blast
  have f: "list_all is_ascii_digit ds \<longrightarrow> base10 ds = ascii_number ds"
    using base10_ascii[of ds] by blast
  show ?thesis
    by (intro conjI) (rule a, rule b, rule c', rule f, rule d, rule e)
qed

theorem device_readers_parse_integers_witness:
  "can_read_brightness (device (ustr ''650'' @ [10]) (ustr ''1000'' @ [10])) \<and>
   fst (read_brightness (device (ustr ''650'' @ [10]) (ustr ''1000'' @ [10]))) = Inr 650 \<and>
   fst (read_max_brightness (device (ustr ''650'' @ [10]) (ustr ''1000'' @ [10]))) = Inr 1000 \<and>
   list_all is_blank [32, 9, 160] \<and> list_all is_blank [13, 10] \<and>
   list_all is_decimal (ustr ''042'') \<and> length (ustr ''042'') \<le> max_str_digits \<and>
   py_int ([32, 9, 160] @ 45 # ustr ''042'' @ [13, 10]) = Inr (- 42) \<and>
   py_int (ustr ''1_0'') = Inr 10 \<and>
   py_int (ustr ''12 34'') = Inl (ValueError (InvalidLiteral (ustr ''12 34''))) \<and>
   py_int (ustr ''abc'') = Inl (ValueError (InvalidLiteral (ustr ''abc''))) \<and>
   py_int (ustr ''1__0'') = Inl (ValueError (InvalidLiteral (ustr ''1__0''))) \<and>
   py_int [] = Inl (ValueError (InvalidLiteral []))"
proof -
  let ?w = "device (ustr ''650'' @ [10]) (ustr ''1000'' @ [10])"
  note t = device_readers_parse_integers
  note ta = t[THEN conjunct1, rule_format]
  note tb = t[THEN conjunct2, THEN conjunct1, rule_format]
  note tc = t[THEN conjunct2, THEN conjunct2, THEN conjunct1, rule_format]
  have bl: "list_all is_blank [32, 9, 160]" "list_all is_blank [13, 10]" "list_all is_blank []"
    "list_all is_blank [10]"
    by (simp_all add: is_blank_def is_c_space_def is_unicode_space_def unicode_spaces_def)
  have d: "list_all is_ascii_digit (ustr ''042'')" "list_all is_ascii_digit (ustr ''650'')"
    "list_all is_ascii_digit (ustr ''1000'')"
    by (simp_all add: ustr_def is_ascii_digit_def)
  then have d': "list_all is_decimal (ustr ''042'')" "list_all is_decimal (ustr ''650'')"
    "list_all is_decimal (ustr ''1000'')"
    by (simp_all add: list_all_iff)
  have ne: "ustr ''042'' \<noteq> []" "ustr ''650'' \<noteq> []" "ustr ''1000'' \<noteq> []"
    by (simp_all add: ustr_def)
  have le: "length (ustr ''042'') \<le> max_str_digits" "length (ustr ''650'') \<le> max_str_digits"
    "length (ustr ''1000'') \<le> max_str_digits"
    by (simp_all add: ustr_def max_str_digits_def)
  have n: "base10 (ustr ''042'') = 42" "base10 (ustr ''650'') = 650"
    "base10 (ustr ''1000'') = 1000"
    unfolding base10_ascii[OF d(1)] base10_ascii[OF d(2)] base10_ascii[OF d(3)]
    by (simp_all add: ascii_number_def ustr_def)
  have r: "can_read_brightness ?w" "can_read_max_brightness ?w"
    "brightness ?w = ustr ''650'' @ [10]" "max_brightness ?w = ustr ''1000'' @ [10]"
    by (simp_all add: device_def)
  have ev: "py_int (ustr ''1_0'') = Inr 10"
    "py_int (ustr ''12 34'') = Inl (ValueError (InvalidLiteral (ustr ''12 34'')))"
    "py_int (ustr ''abc'') = Inl (ValueError (InvalidLiteral (ustr ''abc'')))"
    "py_int (ustr ''1__0'') = Inl (ValueError (InvalidLiteral (ustr ''1__0'')))"
    "py_int [] = Inl (ValueError (InvalidLiteral []))"
    by (simp_all add: int_eval ustr_def)
  have 1: "py_int ([32, 9, 160] @ 45 # ustr ''042'' @ [13, 10]) = Inr (- 42)"
    using tc[of "[32, 9, 160]" "[13, 10]" "ustr ''042''"] bl(1,2) ne(1) d'(1) n(1) le(1) by simp
  have 2: "py_int (ustr ''650'' @ [10]) = Inr 650"
    using tc[of "[]" "[10]" "ustr ''650''"] bl(3,4) ne(2) d'(2) n(2) le(2) by simp
  have 3: "py_int (ustr ''1000'' @ [10]) = Inr 1000"
    using tc[of "[]" "[10]" "ustr ''1000''"] bl(3,4) ne(3) d'(3) n(3) le(3) by simp
  have 6: "fst (read_brightness ?w) = Inr 650" "fst (read_max_brightness ?w) = Inr 1000"
    using ta[OF r(1)] tb[OF r(2)] r(3,4) 2 3 by simp_all
  show ?thesis using r(1) 6 bl(1,2) d'(1) le(1) 1 ev by blast
qed

theorem reader_digit_limit_counterexample:
  "list_all is_ascii_digit (replicate (Suc max_str_digits) 49) \<and>
   fst (read_brightness (device (replicate (Suc max_str_digits) 49 @ [10]) [])) =
     Inl (ValueError (ExceedsLimitToInt (Suc max_str_digits)))"
proof -
  let ?ds = "replicate (Suc max_str_digits) (49::nat)"
  have a: "is_ascii_digit 49" by (simp add: is_ascii_digit_def)
  then have d: "list_all is_decimal ?ds" by (simp add: list_all_iff)
  have bl: "list_all is_blank []" "list_all is_blank [10]"
    by (simp_all add: is_blank_def is_c_space_def)
  have ne: "?ds \<noteq> []" by simp
  from py_int_literal[OF bl ne d, of None]
  have "py_int (?ds @ [10]) = Inl (ValueError (ExceedsLimitToInt (Suc max_str_digits)))"
    by (simp add: opt_str_def)
  then have "fst (read_brightness (device (?ds @ [10]) [])) =
     Inl (ValueError (ExceedsLimitToInt (Suc max_str_digits)))"
    by (simp add: read_brightness_def device_def)
  with a show ?thesis by (simp add: list_all_iff)
qed

section \<open>Percentages: rounding and the show command\<close>

lemma div_rhe_round_half_even:
  assumes "0 < d"
  shows "int (div_rhe n d) = round_half_even (of_nat n / of_nat d)"
proof -
  let ?x = "of_nat n / of_nat d :: rat"
  have fl: "\<lfloor>?x\<rfloor> = int (n div d)" by (simp add: floor_divide_of_nat_eq)
  have "(of_nat n :: rat) = of_nat (d * (n div d) + n mod d)" by simp
  also have "\<dots> = of_nat d * of_nat (n div d) + of_nat (n mod d)"
    by (simp only: of_nat_add of_nat_mult)
  finally have dn: "(of_nat n :: rat) = of_nat d * of_nat (n div d) + of_nat (n mod d)" .
  have fr: "?x - of_int (int (n div d)) = of_nat (n mod d) / of_nat d"
    using assms by (simp add: field_simps dn)
  have lt: "(of_nat (n mod d) / of_nat d < (1 / 2 :: rat)) = (2 * (n mod d) < d)"
  proof -
    have "(of_nat (n mod d) / of_nat d < (1 / 2 :: rat)) = ((of_nat (2 * (n mod d)) :: rat) < of_nat d)"
      using assms by (simp add: field_simps)
    then show ?thesis by (simp only: of_nat_less_iff)
  qed
  have gt: "((1 / 2 :: rat) < of_nat (n mod d) / of_nat d) = (d < 2 * (n mod d))"
  proof -
    have "((1 / 2 :: rat) < of_nat (n mod d) / of_nat d) = ((of_nat d :: rat) < of_nat (2 * (n mod d)))"
      using assms by (simp add: field_simps)
    then show ?thesis by (simp only: of_nat_less_iff)
  qed
  show ?thesis
    unfolding round_half_even_def fl fr lt gt div_rhe_def by simp
qed

lemma round_half_even_unique:
  assumes "\<bar>y - of_int z\<bar> < 1 / 2"
  shows "round_half_even y = z"
proof (cases "of_int z \<le> y")
  case True
  with assms have "\<lfloor>y\<rfloor> = z" by (intro floor_unique) auto
  with assms True show ?thesis by (simp add: round_half_even_def)
next
  case False
  with assms have f: "\<lfloor>y\<rfloor> = z - 1" by (intro floor_unique) auto
  from assms False have "1 / 2 < y - of_int (z - 1)" by simp
  with f show ?thesis by (simp add: round_half_even_def)
qed

lemma round_half_even_close: "\<bar>x - of_int (round_half_even x)\<bar> \<le> 1 / 2"
proof -
  have "of_int \<lfloor>x\<rfloor> \<le> x" "x < of_int \<lfloor>x\<rfloor> + 1" by linarith+
  then show ?thesis by (auto simp: round_half_even_def)
qed

lemma round_half_even_of_int [simp]: "round_half_even (of_int z) = z"
  by (rule round_half_even_unique) simp

lemma round_twice:
  fixes n :: nat and j :: nat
  assumes j: "6 \<le> j"
  defines "x \<equiv> (of_nat n / 100 :: rat)"
  shows "round_half_even (of_int (round_half_even (x * 2 ^ j)) / 2 ^ j) = round_half_even x"
proof (cases "50 dvd n")
  case True
  then obtain k where k: "n = 50 * k" by (auto simp: dvd_def)
  from j obtain i where i: "j = Suc i" by (cases j) auto
  have "x * 2 ^ j = of_int (int k * 2 ^ i)" by (simp add: x_def k i)
  then have "round_half_even (x * 2 ^ j) = int k * 2 ^ i" by (simp only: round_half_even_of_int)
  then have "of_int (round_half_even (x * 2 ^ j)) / 2 ^ j = x" by (simp add: x_def k i)
  then show ?thesis by simp
next
  case False
  let ?z = "round_half_even x"
  let ?m = "round_half_even (x * 2 ^ j)"
  have c: "\<bar>x - of_int ?z\<bar> \<le> 1 / 2" by (rule round_half_even_close)
  have e: "x - of_int ?z = of_int (int n - 100 * ?z) / 100" by (simp add: x_def field_simps)
  from c have "\<bar>(of_int (int n - 100 * ?z) :: rat)\<bar> \<le> of_int 50" unfolding e by simp
  then have "\<bar>int n - 100 * ?z\<bar> \<le> 50" by (simp only: of_int_abs[symmetric] of_int_le_iff)
  moreover have "\<bar>int n - 100 * ?z\<bar> \<noteq> 50"
  proof
    assume "\<bar>int n - 100 * ?z\<bar> = 50"
    then have "int n = 50 * (2 * ?z + 1) \<or> int n = 50 * (2 * ?z - 1)" by auto
    then have "(50::int) dvd int n" by (metis dvd_triv_left)
    then have "50 dvd n" by presburger
    with False show False by simp
  qed
  ultimately have "\<bar>int n - 100 * ?z\<bar> \<le> 49" by simp
  then have "\<bar>(of_int (int n - 100 * ?z) :: rat)\<bar> \<le> of_int 49"
    by (simp only: of_int_abs[symmetric] of_int_le_iff)
  then have xz: "\<bar>x - of_int ?z\<bar> \<le> 49 / 100" unfolding e by simp
  have m: "\<bar>x * 2 ^ j - of_int ?m\<bar> \<le> 1 / 2" by (rule round_half_even_close)
  have p: "(2::rat) ^ j \<ge> 2 ^ 6" using j by (intro power_increasing) auto
  have "\<bar>of_int ?m / 2 ^ j - x\<bar> = \<bar>x * 2 ^ j - of_int ?m\<bar> / 2 ^ j"
    by (simp add: field_simps abs_divide abs_minus_commute)
  also have "\<dots> \<le> (1 / 2) / 2 ^ j" using m by (intro divide_right_mono) auto
  also have "\<dots> \<le> (1 / 2) / 2 ^ 6" using p by (intro divide_left_mono) auto
  finally have "\<bar>of_int ?m / 2 ^ j - x\<bar> \<le> 1 / 128" by simp
  with xz have "\<bar>of_int ?m / 2 ^ j - (of_int ?z :: rat)\<bar> < 1 / 2" by linarith
  then show ?thesis by (rule round_half_even_unique)
qed

lemma div_rhe_twice:
  assumes "6 \<le> j"
  shows "div_rhe (div_rhe (n * 2 ^ j) 100) (2 ^ j) = div_rhe n 100"
proof -
  have "int (div_rhe (n * 2 ^ j) 100) = round_half_even (of_nat (n * 2 ^ j) / of_nat 100)"
    by (rule div_rhe_round_half_even) simp
  also have "(of_nat (n * 2 ^ j) / of_nat 100 :: rat) = of_nat n / 100 * 2 ^ j" by simp
  finally have "(of_int (int (div_rhe (n * 2 ^ j) 100)) :: rat) =
      of_int (round_half_even (of_nat n / 100 * 2 ^ j))" by simp
  then have a: "(of_nat (div_rhe (n * 2 ^ j) 100) :: rat) =
      of_int (round_half_even (of_nat n / 100 * 2 ^ j))" by simp
  have "int (div_rhe (div_rhe (n * 2 ^ j) 100) (2 ^ j)) =
     round_half_even (of_nat (div_rhe (n * 2 ^ j) 100) / of_nat (2 ^ j))"
    by (rule div_rhe_round_half_even) simp
  also have "\<dots> = round_half_even (of_int (round_half_even (of_nat n / 100 * 2 ^ j)) / 2 ^ j)"
    unfolding a by simp
  also have "\<dots> = round_half_even (of_nat n / 100)"
    by (rule round_twice[OF assms])
  also have "\<dots> = int (div_rhe n 100)"
    using div_rhe_round_half_even[of 100 n] by simp
  finally show ?thesis by simp
qed

lemma bit_length_le: "n < 2 ^ w \<Longrightarrow> bit_length n \<le> w"
proof (induction w arbitrary: n)
  case 0
  then show ?case by (subst bit_length.simps) simp
next
  case (Suc w)
  from Suc.prems have "n div 2 < 2 ^ w" by simp
  from Suc.IH[OF this] show ?case by (subst bit_length.simps) simp
qed

lemma bit_length_100: "bit_length 100 = 7"
  by (simp add: bit_length.simps)

lemma quot_exponent_100_le:
  assumes "n < 100 * 2 ^ 47"
  shows "quot_exponent n 100 \<le> 46"
proof -
  have "n < 2 ^ 54" using assms by simp
  from bit_length_le[OF this] have k: "int (bit_length n) - 7 \<le> 47" by simp
  show ?thesis
  proof (cases "ge_pow2 n 100 (int (bit_length n) - 7)")
    case True
    have "int (bit_length n) - 7 \<noteq> 47"
    proof
      assume "int (bit_length n) - 7 = 47"
      with True have "100 * 2 ^ 47 \<le> n" by (simp add: ge_pow2_def)
      with assms show False by simp
    qed
    with k True show ?thesis by (simp add: quot_exponent_def bit_length_100)
  next
    case False
    with k show ?thesis by (simp add: quot_exponent_def bit_length_100)
  qed
qed

lemma round_quot_exact:
  assumes "0 \<le> a" "a < 100 * 2 ^ 47"
  shows "round_quot a 100 = Inr (round_half_even (of_int a / 100))"
proof (cases "a = 0")
  case True
  have "round_half_even 0 = 0" using round_half_even_of_int[of 0] by simp
  with True show ?thesis
    by (simp add: round_quot_def int_true_divide_def bind_res_def py_round_def scaled_rhe_def
        div_rhe_def)
next
  case False
  define n where "n = nat a"
  with assms False have n: "0 < n" "n < 100 * 2 ^ 47" "a = int n" by auto
  define s where "s = ulp_exponent n 100"
  define j where "j = nat (- s)"
  from quot_exponent_100_le[OF n(2)] have s: "s \<le> - 6" by (simp add: s_def ulp_exponent_def)
  then have j: "6 \<le> j" "s < 0" "\<not> 0 \<le> s" by (simp_all add: j_def)
  have rd: "round_double n 100 = Some (div_rhe (n * 2 ^ j) 100, s)"
    using j by (simp add: round_double_def s_def[symmetric] scaled_rhe_def j_def)
  have "int_true_divide a 100 = Inr (PyFloat False (div_rhe (n * 2 ^ j) 100) s)"
    using n(1) by (simp add: int_true_divide_def n(3) rd)
  then have "round_quot a 100 = Inr (int (div_rhe (div_rhe (n * 2 ^ j) 100) (2 ^ j)))"
    using j by (simp add: round_quot_def bind_res_def py_round_def scaled_rhe_def j_def)
  also have "\<dots> = Inr (int (div_rhe n 100))" by (simp add: div_rhe_twice[OF j(1)])
  also have "int (div_rhe n 100) = round_half_even (of_nat n / of_nat 100)"
    by (rule div_rhe_round_half_even) simp
  finally show ?thesis by (simp add: n(3))
qed

text \<open>
  Claim C4, as the code has it. With the \<open>max_brightness\<close> file holding \<open>mx\<close>,
  \<open>AbsolutePercent p\<close> reads that file only and returns \<open>round(p * mx / 100)\<close>: the
  double nearest to the quotient, rounded to the nearest integer with ties to even. For
  \<open>0 \<le> p\<close>, \<open>0 < mx\<close> and \<open>p * mx < 100 * 2 ^ 47\<close> this is the exact rational
  quotient rounded half to even, so \<open>p = 70\<close> and \<open>mx = 1000\<close> give 700. Beyond that
  bound the two differ, as the counterexample below shows: the claim does not hold
  for all non-negative \<open>p\<close> and \<open>max\<close>.
\<close>

theorem absolute_percent_rounds:
  assumes "can_read_max_brightness w" and "py_int (max_brightness w) = Inr mx"
  shows "compute (AbsolutePercent p) w =
           (round_quot (p * mx) 100, record_open (OpenRead MaxBrightness) w) \<and>
         (0 \<le> p \<and> 0 < mx \<and> p * mx < 100 * 2 ^ 47 \<longrightarrow>
            round_quot (p * mx) 100 = Inr (round_half_even (of_int (p * mx) / 100)))"
proof -
  have "compute (AbsolutePercent p) w =
           (round_quot (p * mx) 100, record_open (OpenRead MaxBrightness) w)"
    using read_max_brightness_good[OF assms] by (simp add: bind_io_def lift_res_def)
  moreover have "round_quot (p * mx) 100 = Inr (round_half_even (of_int (p * mx) / 100))"
    if "0 \<le> p" "0 < mx" "p * mx < 100 * 2 ^ 47"
    using that by (intro round_quot_exact) simp_all
  ultimately show ?thesis by blast
qed

lemma round_half_even_nat:
  "0 < d \<Longrightarrow> round_half_even (of_int (int n) / of_int (int d)) = int (div_rhe n d)"
  using div_rhe_round_half_even[of d n] by simp

theorem absolute_percent_rounds_witness:
  "can_read_max_brightness (device [] (ustr ''1000'' @ [10])) \<and>
   py_int (max_brightness (device [] (ustr ''1000'' @ [10]))) = Inr 1000 \<and>
   (0::int) \<le> 70 \<and> (0::int) < 1000 \<and> (70 * 1000 :: int) < 100 * 2 ^ 47 \<and>
   compute (AbsolutePercent 70) (device [] (ustr ''1000'' @ [10])) =
     (Inr 700, record_open (OpenRead MaxBrightness) (device [] (ustr ''1000'' @ [10]))) \<and>
   round_half_even (of_int (70 * 1000) / 100) = 700"
proof -
  let ?w = "device [] (ustr ''1000'' @ [10])"
  have r: "can_read_max_brightness ?w" by (simp add: device_def)
  have m: "py_int (max_brightness ?w) = Inr 1000" using py_int_examples(2) by (simp add: device_def)
  have e: "round_half_even (of_int (70 * 1000) / 100) = 700"
    using round_half_even_nat[of 100 70000] by (simp add: div_rhe_def)
  show ?thesis
    using absolute_percent_rounds[OF r m, of 70] r m e by simp
qed

theorem absolute_percent_inexact_counterexample:
  "compute (AbsolutePercent 1) (device [] (ustr ''14073748835532949'')) =
     (Inr 140737488355330,
      record_open (OpenRead MaxBrightness) (device [] (ustr ''14073748835532949''))) \<and>
   round_half_even (of_int (1 * 14073748835532949) / 100) = 140737488355329"
proof -
  let ?w = "device [] (ustr ''14073748835532949'')"
  have r: "can_read_max_brightness ?w" by (simp add: device_def)
  have "py_int (ustr ''14073748835532949'') = Inr 14073748835532949"
    by (simp add: int_eval ustr_def)
  then have m: "py_int (max_brightness ?w) = Inr 14073748835532949" by (simp add: device_def)
  have q: "round_quot (1 * 14073748835532949) 100 = Inr 140737488355330"
    by (simp add: float_eval)
  have c: "compute (AbsolutePercent 1) ?w =
     (Inr 140737488355330, record_open (OpenRead MaxBrightness) ?w)"
    using read_max_brightness_good[OF r m] q by (simp add: bind_io_def lift_res_def)
  have e: "round_half_even (of_int (1 * 14073748835532949) / 100) = 140737488355329"
    using round_half_even_nat[of 100 14073748835532949] by (simp add: div_rhe_def)
  from c e show ?thesis by simp
qed

lemma scaled_rhe_round_half_even:
  assumes "0 < d"
  shows "int (scaled_rhe n d s) = round_half_even (of_nat n / (of_nat d * 2 powi s))"
proof (cases "0 \<le> s")
  case True
  have "int (div_rhe n (d * 2 ^ nat s)) = round_half_even (of_nat n / of_nat (d * 2 ^ nat s))"
    using assms by (intro div_rhe_round_half_even) simp
  with True show ?thesis by (simp add: scaled_rhe_def power_int_def)
next
  case False
  have "int (div_rhe (n * 2 ^ nat (- s)) d) = round_half_even (of_nat (n * 2 ^ nat (- s)) / of_nat d)"
    using assms by (intro div_rhe_round_half_even)
  with False show ?thesis by (simp add: scaled_rhe_def power_int_def field_simps)
qed

lemma ge_pow2_iff:
  assumes "0 < d"
  shows "ge_pow2 n d k \<longleftrightarrow> 2 powi k \<le> (of_nat n / of_nat d :: rat)"
proof (cases "0 \<le> k")
  case True
  have "((of_nat (d * 2 ^ nat k) :: rat) \<le> of_nat n) = (d * 2 ^ nat k \<le> n)"
    by (simp only: of_nat_le_iff)
  with True assms show ?thesis by (simp add: ge_pow2_def power_int_def field_simps)
next
  case False
  have "((of_nat d :: rat) \<le> of_nat (n * 2 ^ nat (- k))) = (d \<le> n * 2 ^ nat (- k))"
    by (simp only: of_nat_le_iff)
  with False assms show ?thesis by (simp add: ge_pow2_def power_int_def field_simps)
qed

lemma bit_length_pos: "0 < n \<Longrightarrow> 0 < bit_length n"
  by (subst bit_length.simps) simp

lemma bit_length_lower: "0 < n \<Longrightarrow> 2 ^ (bit_length n - 1) \<le> n"
proof (induction n rule: bit_length.induct)
  case (1 n)
  show ?case
  proof (cases "n div 2 = 0")
    case True
    with 1(2) have "n = 1" by presburger
    then show ?thesis by (simp add: bit_length.simps)
  next
    case False
    with 1 have "2 ^ (bit_length (n div 2) - 1) \<le> n div 2" by simp
    moreover from False have "0 < bit_length (n div 2)" by (intro bit_length_pos) simp
    moreover have "bit_length n = Suc (bit_length (n div 2))"
      using 1(2) by (subst bit_length.simps) simp
    ultimately have "2 ^ (bit_length n - 1) \<le> 2 * (n div 2)"
      by (cases "bit_length (n div 2)") simp_all
    then show ?thesis by simp
  qed
qed

lemma bit_length_upper: "n < 2 ^ bit_length n"
proof (induction n rule: bit_length.induct)
  case (1 n)
  show ?case
  proof (cases "n = 0")
    case True
    then show ?thesis by simp
  next
    case False
    with 1 have "n div 2 < 2 ^ bit_length (n div 2)" by simp
    moreover have "bit_length n = Suc (bit_length (n div 2))"
      using False by (subst bit_length.simps) simp
    ultimately show ?thesis by simp
  qed
qed

lemma quot_exponent_lower:
  assumes "0 < n" "0 < d"
  shows "2 powi quot_exponent n d \<le> (of_nat n / of_nat d :: rat)"
proof (cases "ge_pow2 n d (int (bit_length n) - int (bit_length d))")
  case True
  then show ?thesis using ge_pow2_iff[OF assms(2)] by (simp add: quot_exponent_def)
next
  case False
  let ?a = "bit_length n" and ?b = "bit_length d"
  from bit_length_pos[OF assms(1)] obtain a' where a: "?a = Suc a'" by (cases ?a) auto
  have "(2::rat) ^ a' \<le> of_nat n"
    using bit_length_lower[OF assms(1)] unfolding a
    by (metis diff_Suc_1 of_nat_le_iff of_nat_numeral of_nat_power)
  moreover have "(of_nat d :: rat) \<le> 2 ^ ?b"
    using bit_length_upper[of d] by (metis less_imp_le of_nat_le_iff of_nat_numeral of_nat_power)
  ultimately have "(2::rat) ^ a' * of_nat d \<le> of_nat n * 2 ^ ?b"
    by (intro mult_mono) auto
  then have "(2::rat) ^ a' / 2 ^ ?b \<le> of_nat n / of_nat d"
    using assms(2) by (simp add: field_simps)
  moreover have "(2::rat) powi (int ?a - int ?b - 1) = 2 ^ a' / 2 ^ ?b"
    by (simp add: a power_int_diff)
  ultimately show ?thesis using False by (simp add: quot_exponent_def)
qed

lemma quot_exponent_ge:
  assumes "0 < n" "0 < d" "d < 2 ^ w"
  shows "- int w \<le> quot_exponent n d"
proof -
  from bit_length_le[OF assms(3)] have "int (bit_length d) \<le> int w" by simp
  moreover from bit_length_pos[OF assms(1)] have "1 \<le> int (bit_length n)" by simp
  ultimately show ?thesis by (simp add: quot_exponent_def)
qed

lemma round_double_near:
  assumes "0 < d"
  shows "\<bar>of_nat (scaled_rhe n d s) * 2 powi s - (of_nat n / of_nat d :: rat)\<bar> \<le> 2 powi s / 2"
proof -
  let ?q = "of_nat n / of_nat d :: rat"
  have p: "(0::rat) < 2 powi s" by simp
  have "int (scaled_rhe n d s) = round_half_even (?q / 2 powi s)"
    using scaled_rhe_round_half_even[OF assms(1), of n s] by (simp add: field_simps)
  then have e: "(of_nat (scaled_rhe n d s) :: rat) = of_int (round_half_even (?q / 2 powi s))"
    by (metis of_int_of_nat_eq)
  have "\<bar>?q / 2 powi s - of_int (round_half_even (?q / 2 powi s))\<bar> \<le> 1 / 2"
    by (rule round_half_even_close)
  then have "\<bar>?q / 2 powi s - of_int (round_half_even (?q / 2 powi s))\<bar> * 2 powi s \<le> 1 / 2 * 2 powi s"
    using p by (intro mult_right_mono) auto
  also have "\<bar>?q / 2 powi s - of_int (round_half_even (?q / 2 powi s))\<bar> * 2 powi s =
      \<bar>(?q / 2 powi s - of_int (round_half_even (?q / 2 powi s))) * 2 powi s\<bar>"
    using p by (simp add: abs_mult)
  also have "(?q / 2 powi s - of_int (round_half_even (?q / 2 powi s))) * 2 powi s =
      ?q - of_int (round_half_even (?q / 2 powi s)) * 2 powi s"
    using p by (simp add: field_simps)
  finally show ?thesis unfolding e by (simp add: abs_minus_commute)
qed

lemma half_ulp_relative:
  assumes "0 < n" "0 < d" "- 1022 \<le> quot_exponent n d"
  shows "2 powi ulp_exponent n d / 2 \<le> (of_nat n / of_nat d :: rat) / 2 ^ 53"
proof -
  let ?e = "quot_exponent n d"
  from assms(3) have s: "ulp_exponent n d = ?e - 52" by (simp add: ulp_exponent_def)
  have "(2::rat) powi (?e - 52) / 2 = 2 powi ?e / 2 ^ 53"
    by (simp add: power_int_diff)
  also have "\<dots> \<le> (of_nat n / of_nat d) / 2 ^ 53"
    using quot_exponent_lower[OF assms(1,2)] by (intro divide_right_mono) auto
  finally show ?thesis by (simp add: s)
qed

lemma round_double_no_overflow:
  assumes "0 < n" "0 < d" "n < 2 ^ 1023"
  shows "round_double n d = Some (scaled_rhe n d (ulp_exponent n d), ulp_exponent n d)"
proof (cases "0 \<le> ulp_exponent n d")
  case False
  then show ?thesis by (simp add: round_double_def)
next
  case True
  let ?s = "ulp_exponent n d" and ?q = "of_nat n / of_nat d :: rat"
  let ?m = "scaled_rhe n d ?s"
  from True have e: "- 1022 \<le> quot_exponent n d" by (simp add: ulp_exponent_def)
  have "(1::rat) \<le> of_nat d" using assms(2) by simp
  then have "?q \<le> of_nat n / 1" by (intro divide_left_mono) auto
  then have "?q \<le> of_nat n" by simp
  also have "(of_nat n :: rat) < 2 ^ 1023"
    using assms(3) by (metis of_nat_less_iff of_nat_numeral of_nat_power)
  finally have q: "?q < 2 ^ 1023" .
  have q0: "0 \<le> ?q" by simp
  have "of_nat ?m * 2 powi ?s \<le> ?q + 2 powi ?s / 2"
    using round_double_near[OF assms(2), of n ?s] by linarith
  also have "\<dots> \<le> ?q + ?q / 2 ^ 53"
    using half_ulp_relative[OF assms(1,2) e] by simp
  also have "\<dots> \<le> ?q + ?q"
  proof -
    have "?q / 2 ^ 53 \<le> ?q / 1" using q0 by (intro divide_left_mono) auto
    then show ?thesis by simp
  qed
  also have "\<dots> < 2 ^ 1024" using q by simp
  finally have lt: "(of_nat ?m :: rat) * 2 powi ?s < 2 ^ 1024" .
  have pw: "(2::rat) powi ?s = 2 ^ nat ?s" using True by (simp add: power_int_def)
  have "(of_nat (?m * 2 ^ nat ?s) :: rat) < of_nat (2 ^ 1024)"
    using lt unfolding pw by (simp only: of_nat_mult of_nat_power of_nat_numeral)
  then have "?m * 2 ^ nat ?s < 2 ^ 1024" by (simp only: of_nat_less_iff)
  then show ?thesis by (simp add: round_double_def)
qed

lemma int_true_divide_accurate:
  assumes "0 \<le> a" "0 < b" "a < 2 ^ 1023" "b < 2 ^ 1000"
  shows "\<exists>pct. int_true_divide a b = Inr pct \<and> \<not> negative pct \<and>
           \<bar>float_value pct - of_int a / of_int b\<bar> \<le> of_int a / of_int b / 2 ^ 53"
proof (cases "a = 0")
  case True
  with assms(2) show ?thesis by (simp add: int_true_divide_def float_value_def)
next
  case False
  define n d where "n = nat a" and "d = nat b"
  with assms False have nd: "0 < n" "0 < d" "a = int n" "b = int d" by simp_all
  from assms(3) have n: "n < 2 ^ 1023" unfolding nd(3) by (metis of_nat_less_iff of_nat_numeral of_nat_power)
  from assms(4) have d: "d < 2 ^ 1000" unfolding nd(4) by (metis of_nat_less_iff of_nat_numeral of_nat_power)
  let ?s = "ulp_exponent n d"
  let ?pct = "PyFloat False (scaled_rhe n d ?s) ?s"
  have "int_true_divide a b = Inr ?pct"
    using nd(1,2) round_double_no_overflow[OF nd(1,2) n]
    by (simp add: int_true_divide_def nd(3,4))
  moreover have "- 1022 \<le> quot_exponent n d"
    using quot_exponent_ge[OF nd(1,2) d] by simp
  then have "\<bar>float_value ?pct - of_int a / of_int b\<bar> \<le> of_int a / of_int b / 2 ^ 53"
    using round_double_near[OF nd(2), of n ?s] half_ulp_relative[OF nd(1,2)]
    by (simp add: float_value_def nd(3,4))
  ultimately show ?thesis by simp
qed

lemma hundredths_near:
  "\<bar>of_nat (hundredths f) / 100 - of_nat (mantissa f) * 2 powi exponent f\<bar> \<le> (1 / 200 :: rat)"
proof -
  let ?v = "of_nat (mantissa f) * 2 powi exponent f :: rat"
  have "int (hundredths f) = round_half_even (of_nat (mantissa f * 100) / (of_nat 1 * 2 powi (- exponent f)))"
    unfolding hundredths_def by (rule scaled_rhe_round_half_even) simp
  also have "(of_nat (mantissa f * 100) / (of_nat 1 * 2 powi (- exponent f)) :: rat) = 100 * ?v"
    by (simp add: power_int_minus field_simps)
  finally have e: "(of_nat (hundredths f) :: rat) = of_int (round_half_even (100 * ?v))"
    by (metis of_int_of_nat_eq)
  have "\<bar>100 * ?v - of_nat (hundredths f)\<bar> \<le> 1 / 2"
    unfolding e by (rule round_half_even_close)
  then show ?thesis by linarith
qed

lemma format_2f_digits:
  "is_ascii_digit (48 + hundredths f mod 100 div 10) \<and> is_ascii_digit (48 + hundredths f mod 10)"
proof -
  have "hundredths f mod 100 div 10 < 10" by simp
  moreover have "hundredths f mod 10 < 10" by simp
  ultimately show ?thesis unfolding is_ascii_digit_def by linarith
qed

lemma py_str_double_range:
  assumes "0 \<le> n" "n < 2 ^ 1023"
  shows "py_str n = Inr (decimal_text n)"
proof -
  from assms(1) have "\<bar>n\<bar> = n" by simp
  also note assms(2)
  also have "(2::int) ^ 1023 \<le> 10 ^ 1023" by (rule power_mono) simp_all
  also have "(10::int) ^ 1023 \<le> 10 ^ max_str_digits"
    by (rule power_increasing) (simp_all add: max_str_digits_def)
  finally have "\<bar>n\<bar> < 10 ^ max_str_digits" .
  then show ?thesis by (simp only: py_str_cases if_True)
qed

lemma newline_not_in_line:
  "10 \<notin> set (ustr ''Current brightness: '' @ decimal_text cur @ ustr ''/'' @
             decimal_text mx @ ustr '' ('' @ format_2f pct @ ustr ''%)'')"
  using newline_not_in_decimal_text[of cur] newline_not_in_decimal_text[of mx]
    newline_not_in_dec[of "hundredths pct div 100"]
  by (simp add: format_2f_def ustr_def)

text \<open>
  Claim C8. With both files readable and holding \<open>cur \<ge> 0\<close> and \<open>mx > 0\<close> (within the
  range of doubles), \<open>show\<close> opens \<open>max_brightness\<close> and then \<open>brightness\<close> and
  prints exactly one line, \<open>Current brightness: cur/mx (P%)\<close>. The percentage is the
  float \<open>cur * 100 / mx\<close>, within a relative error of \<open>2 ^ - 53\<close> of the real
  quotient, and \<open>P\<close> is that float to the nearest hundredth, printed with its integer
  part, a point and two digits. For 650 and 1000 the line is
  \<open>Current brightness: 650/1000 (65.00%)\<close>, as the witness shows.
\<close>

theorem show_prints_current_brightness:
  assumes "can_read_max_brightness w" and "py_int (max_brightness w) = Inr mx"
    and "can_read_brightness w" and "py_int (brightness w) = Inr cur"
    and "0 \<le> cur" and "0 < mx" and "cur * 100 < 2 ^ 1023" and "mx < 2 ^ 1000"
  shows "\<exists>pct. int_true_divide (cur * 100) mx = Inr pct \<and>
     print_current_brightness w =
       (Inr (), (record_open (OpenRead Brightness) (record_open (OpenRead MaxBrightness) w))
          \<lparr>stdout := stdout w @ ustr ''Current brightness: '' @ decimal_text cur @ ustr ''/'' @
             decimal_text mx @ ustr '' ('' @ format_2f pct @ ustr ''%)'' @ [10]\<rparr>) \<and>
     10 \<notin> set (ustr ''Current brightness: '' @ decimal_text cur @ ustr ''/'' @
             decimal_text mx @ ustr '' ('' @ format_2f pct @ ustr ''%)'') \<and>
     format_2f pct = dec (hundredths pct div 100) @
       [46, 48 + hundredths pct mod 100 div 10, 48 + hundredths pct mod 10] \<and>
     is_ascii_digit (48 + hundredths pct mod 100 div 10) \<and>
     is_ascii_digit (48 + hundredths pct mod 10) \<and>
     \<bar>of_nat (hundredths pct) / 100 - float_value pct\<bar> \<le> 1 / 200 \<and>
     \<bar>float_value pct - of_int (cur * 100) / of_int mx\<bar> \<le> of_int (cur * 100) / of_int mx / 2 ^ 53"
proof -
  from assms(5) have a: "0 \<le> cur * 100" by simp
  from int_true_divide_accurate[OF a assms(6,7,8)] obtain pct where
    p: "int_true_divide (cur * 100) mx = Inr pct" "\<not> negative pct"
      "\<bar>float_value pct - of_int (cur * 100) / of_int mx\<bar> \<le> of_int (cur * 100) / of_int mx / 2 ^ 53"
    by blast
  let ?w1 = "record_open (OpenRead MaxBrightness) w"
  have r1: "read_max_brightness w = (Inr mx, ?w1)"
    by (rule read_max_brightness_good[OF assms(1,2)])
  have r2: "read_brightness ?w1 = (Inr cur, record_open (OpenRead Brightness) ?w1)"
    using assms(3,4) by (intro read_brightness_good) simp_all
  have sc: "py_str cur = Inr (decimal_text cur)"
  proof (rule py_str_double_range[OF assms(5)])
    from assms(5) have "cur \<le> cur * 100" by simp
    then show "cur < 2 ^ 1023" using assms(7) by (rule le_less_trans)
  qed
  have sm: "py_str mx = Inr (decimal_text mx)"
  proof (rule py_str_double_range)
    from assms(6) show "0 \<le> mx" by simp
    have "(2::int) ^ 1000 \<le> 2 ^ 1023" by (rule power_increasing) simp_all
    with assms(8) show "mx < 2 ^ 1023" by (rule less_le_trans)
  qed
  have o: "output_line cur mx pct = Inr (ustr ''Current brightness: '' @ decimal_text cur @
             ustr ''/'' @ decimal_text mx @ ustr '' ('' @ format_2f pct @ ustr ''%)'')"
    by (simp add: output_line_def sc sm bind_res_def)
  have pr: "print_current_brightness w =
       (Inr (), (record_open (OpenRead Brightness) ?w1)
          \<lparr>stdout := stdout w @ ustr ''Current brightness: '' @ decimal_text cur @ ustr ''/'' @
             decimal_text mx @ ustr '' ('' @ format_2f pct @ ustr ''%)'' @ [10]\<rparr>)"
    by (simp add: print_current_brightness_def bind_io_def lift_res_def r1 r2 p(1) o
        print_line_def)
  have f: "format_2f pct = dec (hundredths pct div 100) @
       [46, 48 + hundredths pct mod 100 div 10, 48 + hundredths pct mod 10]"
    using p(2) by (simp add: format_2f_def)
  have h: "\<bar>of_nat (hundredths pct) / 100 - float_value pct\<bar> \<le> 1 / 200"
    using hundredths_near[of pct] p(2) by (simp add: float_value_def)
  show ?thesis
    using p(1,3) pr newline_not_in_line[of cur mx pct] f
      format_2f_digits[of pct] h
    by (intro exI[of _ pct]) (simp only: simp_thms append_assoc)
qed

theorem show_prints_current_brightness_witness:
  "can_read_max_brightness (device (ustr ''650'' @ [10]) (ustr ''1000'' @ [10])) \<and>
   py_int (max_brightness (device (ustr ''650'' @ [10]) (ustr ''1000'' @ [10]))) = Inr 1000 \<and>
   can_read_brightness (device (ustr ''650'' @ [10]) (ustr ''1000'' @ [10])) \<and>
   py_int (brightness (device (ustr ''650'' @ [10]) (ustr ''1000'' @ [10]))) = Inr 650 \<and>
   (0::int) \<le> 650 \<and> (0::int) < 1000 \<and> (650 * 100 :: int) < 2 ^ 1023 \<and> (1000::int) < 2 ^ 1000 \<and>
   print_current_brightness (device (ustr ''650'' @ [10]) (ustr ''1000'' @ [10])) =
     (Inr (), (device (ustr ''650'' @ [10]) (ustr ''1000'' @ [10]))
        \<lparr>stdout := ustr ''Current brightness: 650/1000 (65.00%)'' @ [10],
         opened := [OpenRead MaxBrightness, OpenRead Brightness]\<rparr>)"
proof -
  let ?w = "device (ustr ''650'' @ [10]) (ustr ''1000'' @ [10])"
  have r: "can_read_max_brightness ?w" "can_read_brightness ?w" by (simp_all add: device_def)
  have m: "py_int (max_brightness ?w) = Inr 1000" and c: "py_int (brightness ?w) = Inr 650"
    using py_int_examples by (simp_all add: device_def)
  have b: "(0::int) \<le> 650" "(0::int) < 1000" "(650 * 100 :: int) < 2 ^ 1023" "(1000::int) < 2 ^ 1000"
    by simp_all
  have d: "int_true_divide (650 * 100) 1000 = Inr (PyFloat False 4573968371548160 (- 46))"
    by (simp add: float_eval)
  have f: "format_2f (PyFloat False 4573968371548160 (- 46)) = ustr ''65.00''"
    by (simp add: format_2f_def hundredths_def scaled_rhe_def div_rhe_def dec.simps ustr_def)
  have s: "decimal_text 650 = ustr ''650''" "decimal_text 1000 = ustr ''1000''"
    by (simp_all add: decimal_text_def dec.simps ustr_def)
  from show_prints_current_brightness[OF r(1) m r(2) c b] obtain pct where
    p: "int_true_divide (650 * 100) 1000 = Inr pct"
    and pr: "print_current_brightness ?w =
       (Inr (), (record_open (OpenRead Brightness) (record_open (OpenRead MaxBrightness) ?w))
          \<lparr>stdout := stdout ?w @ ustr ''Current brightness: '' @ decimal_text 650 @ ustr ''/'' @
             decimal_text 1000 @ ustr '' ('' @ format_2f pct @ ustr ''%)'' @ [10]\<rparr>)"
    by blast
  from p d have "pct = PyFloat False 4573968371548160 (- 46)" by simp
  with pr have "print_current_brightness ?w =
     (Inr (), ?w\<lparr>stdout := ustr ''Current brightness: 650/1000 (65.00%)'' @ [10],
         opened := [OpenRead MaxBrightness, OpenRead Brightness]\<rparr>)"
    by (simp add: f s device_def record_open_def ustr_def)
  with r m c b show ?thesis by blast
qed

end
